theory Spec2Isabelle
  imports Main "HOL-Library.Sublist"
begin

section \<open>Positions and ranges of the editor API\<close>

text \<open>
  \<^verbatim>\<open>vscode.Position\<close> is a pair of a zero-based line and a zero-based character
  (both non-negative by construction), compared lexicographically. The comparison methods
  are the editor's: \<^verbatim>\<open>isAfter\<close> is the negation of \<^verbatim>\<open>isBeforeOrEqual\<close>,
  \<^verbatim>\<open>isAfterOrEqual\<close> the negation of \<^verbatim>\<open>isBefore\<close>.
\<close>

record position =
  line :: nat
  character :: nat

definition Position :: "nat \<Rightarrow> nat \<Rightarrow> position" where
  "Position l c = \<lparr>line = l, character = c\<rparr>"

definition isBefore :: "position \<Rightarrow> position \<Rightarrow> bool" where
  "isBefore p other =
     (if line p < line other then True
      else if line other < line p then False
      else character p < character other)"

definition isBeforeOrEqual :: "position \<Rightarrow> position \<Rightarrow> bool" where
  "isBeforeOrEqual p other =
     (if line p < line other then True
      else if line other < line p then False
      else character p \<le> character other)"

definition isAfter :: "position \<Rightarrow> position \<Rightarrow> bool" where
  "isAfter p other = (\<not> isBeforeOrEqual p other)"

definition isAfterOrEqual :: "position \<Rightarrow> position \<Rightarrow> bool" where
  "isAfterOrEqual p other = (\<not> isBefore p other)"

definition isEqual :: "position \<Rightarrow> position \<Rightarrow> bool" where
  "isEqual p other = (line p = line other \<and> character p = character other)"

record range =
  rstart :: position
  rend :: position

section \<open>Syntax trees of the Emmet parsers\<close>

text \<open>
  A \<^verbatim>\<open>Node\<close> of the Emmet parsers has a start and an end position, a name, a type
  tag, attributes (absent on stylesheet nodes), an open token and an optional close token,
  and its children. The tree owns its descendants; \<^verbatim>\<open>firstChild\<close>,
  \<^verbatim>\<open>nextSibling\<close> and \<^verbatim>\<open>parent\<close> navigate it. The model is a rose tree,
  and a reference to a node of a tree is the path of child indices that leads to it from
  the root: the root is \<open>[]\<close>, its first child \<open>[0]\<close>.
\<close>

datatype node = Node
  (nstart: position)
  (nend: position)
  (nname: string)
  (ntype: string)
  (nattributes: "(string \<times> string) list option")
  (nopen: range)
  (nclose: "range option")
  (children: "node list")

type_synonym noderef = "nat list"

fun node_at :: "node \<Rightarrow> noderef \<Rightarrow> node option" where
  "node_at n [] = Some n"
| "node_at n (i # p) =
     (if i < length (children n) then node_at (children n ! i) p else None)"


definition firstChild :: "node \<Rightarrow> noderef \<Rightarrow> noderef option" where
  "firstChild root p =
     (case node_at root p of
        None \<Rightarrow> None
      | Some n \<Rightarrow> if children n = [] then None else Some (p @ [0]))"


section \<open>The node locator\<close>

text \<open>
  \<^verbatim>\<open>getNode(root, position, includeNodeBoundary)\<close>. The loop variable
  \<^verbatim>\<open>currentNode\<close> is a node together with its chain of next siblings: here the
  list of the siblings from the current one on, the path \<open>pp\<close> of their parent and the
  index \<open>i\<close> of the current one among its parent's children. Taking
  \<^verbatim>\<open>currentNode.firstChild\<close> moves to the children of the head; taking
  \<^verbatim>\<open>currentNode.nextSibling\<close> moves to the tail. \<^verbatim>\<open>foundNode\<close> is the
  reference remembered so far.
\<close>

definition containsPosition :: "bool \<Rightarrow> position \<Rightarrow> node \<Rightarrow> bool" where
  "containsPosition includeNodeBoundary pos n =
     ((isBefore (nstart n) pos \<and> isAfter (nend n) pos)
      \<or> (includeNodeBoundary \<and> (isBeforeOrEqual (nstart n) pos \<and> isAfterOrEqual (nend n) pos)))"

function getNode_loop ::
  "position \<Rightarrow> bool \<Rightarrow> noderef \<Rightarrow> nat \<Rightarrow> node list \<Rightarrow> noderef option \<Rightarrow> noderef option" where
  "getNode_loop pos incl pp i [] foundNode = foundNode"
| "getNode_loop pos incl pp i (n # ns) foundNode =
     (if containsPosition incl pos n
      then getNode_loop pos incl (pp @ [i]) 0 (children n) (Some (pp @ [i]))
      else getNode_loop pos incl pp (Suc i) ns foundNode)"
  by pat_completeness auto
termination
  apply (relation "measure (\<lambda>(pos, incl, pp, i, ns, f). size_list size ns)")
    apply simp
  subgoal for pos incl pp i n ns foundNode by (cases n) simp
  apply simp
  done

definition getNode :: "node option \<Rightarrow> position \<Rightarrow> bool \<Rightarrow> noderef option" where
  "getNode root pos includeNodeBoundary =
     (case root of
        None \<Rightarrow> None
      | Some r \<Rightarrow> getNode_loop pos includeNodeBoundary [] 0 (children r) None)"

section \<open>Well-formed trees\<close>

text \<open>
  The tree invariant of the data model: a child's span lies within its parent's span, and
  the children of a node are in document order without overlap, an earlier sibling ending
  at or before the start of every later one. With \<open>incl\<close> set the siblings are
  moreover separated: an earlier one ends strictly before a later one starts, so that no
  position is on the boundary of two siblings. The root's own span is not constrained.
\<close>

definition within :: "node \<Rightarrow> node \<Rightarrow> bool" where
  "within par c = (isBeforeOrEqual (nstart par) (nstart c) \<and> isBeforeOrEqual (nend c) (nend par))"

definition ends_before :: "bool \<Rightarrow> node \<Rightarrow> node \<Rightarrow> bool" where
  "ends_before incl n m =
     (if incl then isBefore (nend n) (nstart m) else isBeforeOrEqual (nend n) (nstart m))"

fun siblings_apart :: "bool \<Rightarrow> node list \<Rightarrow> bool" where
  "siblings_apart incl [] = True"
| "siblings_apart incl (n # ns) = ((\<forall>m\<in>set ns. ends_before incl n m) \<and> siblings_apart incl ns)"

fun well_formed :: "bool \<Rightarrow> node \<Rightarrow> bool" where
  "well_formed incl (Node s e nm ty at op cl cs) =
     (siblings_apart incl cs \<and>
      (\<forall>c\<in>set cs. isBeforeOrEqual s (nstart c) \<and> isBeforeOrEqual (nend c) e \<and> well_formed incl c))"

definition well_formed_forest :: "bool \<Rightarrow> node list \<Rightarrow> bool" where
  "well_formed_forest incl ns = (siblings_apart incl ns \<and> (\<forall>n\<in>set ns. well_formed incl n))"


definition well_formed_tree :: "bool \<Rightarrow> node \<Rightarrow> bool" where
  "well_formed_tree incl root = well_formed_forest incl (children root)"

text \<open>
  What the locator needs is less, and is about one position only. A tree is unambiguous
  for a position when, among the children of any one node, at most one contains the
  position; a node is nested for a position when each of its descendants that contains the
  position lies in a parent that contains it. The root's own span is not read. Every
  well-formed tree is nested for every position, and unambiguous for every position that
  is not on a boundary that two siblings share.
\<close>

fun unambiguous :: "bool \<Rightarrow> position \<Rightarrow> node \<Rightarrow> bool" where
  "unambiguous incl pos (Node s e nm ty at op cl cs) =
     (length (filter (containsPosition incl pos) cs) \<le> 1 \<and> (\<forall>c\<in>set cs. unambiguous incl pos c))"

fun nested_at :: "bool \<Rightarrow> position \<Rightarrow> node \<Rightarrow> bool" where
  "nested_at incl pos (Node s e nm ty at op cl cs) =
     (\<forall>c\<in>set cs.
        (containsPosition incl pos c \<longrightarrow> containsPosition incl pos (Node s e nm ty at op cl cs))
        \<and> nested_at incl pos c)"

definition locatable_forest :: "bool \<Rightarrow> position \<Rightarrow> node list \<Rightarrow> bool" where
  "locatable_forest incl pos ns =
     (length (filter (containsPosition incl pos) ns) \<le> 1
      \<and> (\<forall>n\<in>set ns. unambiguous incl pos n \<and> nested_at incl pos n))"

definition locatable :: "bool \<Rightarrow> position \<Rightarrow> node \<Rightarrow> bool" where
  "locatable incl pos root = locatable_forest incl pos (children root)"

text \<open>The node of a forest that a non-empty path names.\<close>

definition forest_at :: "node list \<Rightarrow> noderef \<Rightarrow> node option" where
  "forest_at ns q = (case q of [] \<Rightarrow> None | j # r \<Rightarrow> if j < length ns then node_at (ns ! j) r else None)"


text \<open>
  The exceptions that leave the operations modelled here: the document's for a line that
  does not exist, a parser's for a text it cannot parse, and the \<^verbatim>\<open>TypeError\<close> of a
  method call on \<^verbatim>\<open>undefined\<close>.
\<close>

datatype error = IllegalLine | ParseFailure | TypeError

section \<open>The sibling-range collector\<close>










section \<open>Text documents and the stream reader\<close>

text \<open>
  \<^verbatim>\<open>vscode.TextDocument\<close> is the editor's: the texts of its lines without their
  terminators, the line terminator and the language identifier. A document has at least one
  line; the empty list of lines stands for the document of one empty line.
\<close>

datatype EndOfLine = LF | CRLF

record text_document =
  doc_lines :: "string list"
  eol :: EndOfLine
  languageId :: string

definition text_lines :: "text_document \<Rightarrow> string list" where
  "text_lines document = (if doc_lines document = [] then [[]] else doc_lines document)"

definition lineCount :: "text_document \<Rightarrow> nat" where
  "lineCount document = length (text_lines document)"

text \<open>
  \<^verbatim>\<open>document.lineAt(line).text\<close>; the editor raises
  \<^verbatim>\<open>Illegal value for `line`\<close> for a line that is negative or past the last one.
\<close>

definition lineAt :: "text_document \<Rightarrow> int \<Rightarrow> error + string" where
  "lineAt document l =
     (if 0 \<le> l \<and> l < int (lineCount document) then Inr (text_lines document ! nat l)
      else Inl IllegalLine)"

definition Range :: "position \<Rightarrow> position \<Rightarrow> range" where
  "Range a b = (if isBefore b a then \<lparr>rstart = b, rend = a\<rparr> else \<lparr>rstart = a, rend = b\<rparr>)"

definition range_contains :: "range \<Rightarrow> position \<Rightarrow> bool" where
  "range_contains r p = (\<not> (isBefore p (rstart r) \<or> isBefore (rend r) p))"

text \<open>
  Modelled from the spec: \<^verbatim>\<open>DocumentStreamReader\<close> of \<^verbatim>\<open>bufferStream.ts\<close>, which is
  not among the sources: a character cursor over a document, constructed from the
  document with an optional position and an optional range window. Without a window the
  stream runs from the start of the document to the end of its last line.
\<close>

record stream =
  sr_document :: text_document
  sr_start :: position
  sr_sof :: position
  sr_eof :: position
  sr_pos :: position

definition document_end :: "text_document \<Rightarrow> position" where
  "document_end document =
     Position (lineCount document - 1) (length (text_lines document ! (lineCount document - 1)))"

definition DocumentStreamReader ::
  "text_document \<Rightarrow> position option \<Rightarrow> range option \<Rightarrow> stream" where
  "DocumentStreamReader document p limit =
     \<lparr>sr_document = document,
      sr_start = (case p of Some q \<Rightarrow> q | None \<Rightarrow> Position 0 0),
      sr_sof = (case limit of Some r \<Rightarrow> rstart r | None \<Rightarrow> Position 0 0),
      sr_eof = (case limit of Some r \<Rightarrow> rend r | None \<Rightarrow> document_end document),
      sr_pos = (case p of Some q \<Rightarrow> q | None \<Rightarrow> Position 0 0)\<rparr>"

section \<open>Parsing whole documents\<close>

text \<open>
  The markup parser and the stylesheet parser are external: each takes a stream and returns
  the root of a tree or throws. They are parameters of the operations that call them, with
  a thrown exception as the \<open>Inl\<close> result.
\<close>

type_synonym parser = "stream \<Rightarrow> error + node"

definition isStyleSheet :: "string \<Rightarrow> bool" where
  "isStyleSheet syntax = (syntax \<in> set [''css'', ''scss'', ''sass'', ''less'', ''stylus''])"

text \<open>
  \<^verbatim>\<open>parseDocument(document, showError)\<close>: the tree, or nothing when the parser throws,
  together with the error message shown to the user, if any.
\<close>

definition parseDocument ::
  "parser \<Rightarrow> parser \<Rightarrow> text_document \<Rightarrow> bool \<Rightarrow> node option \<times> string option" where
  "parseDocument parse parseStylesheet document showError =
     (let parseContent = (if isStyleSheet (languageId document) then parseStylesheet else parse)
      in case parseContent (DocumentStreamReader document None None) of
           Inr tree \<Rightarrow> (Some tree, None)
         | Inl e \<Rightarrow>
             (None, if showError then Some ''Emmet: Failed to parse the file'' else None))"

section \<open>Template-aware node resolution on the boundary tree\<close>

definition allowedMimeTypesInScriptTag :: "string list" where
  "allowedMimeTypesInScriptTag =
     [''text/html'', ''text/plain'', ''text/x-template'', ''text/template'', ''text/ng-template'']"

definition isTemplateScript :: "node \<Rightarrow> bool" where
  "isTemplateScript currentNode =
     (nname currentNode = ''script'' \<and>
      (case nattributes currentNode of
         None \<Rightarrow> False
       | Some attrs \<Rightarrow>
           list_ex (\<lambda>x. fst x = ''type'' \<and> snd x \<in> set allowedMimeTypesInScriptTag) attrs))"

text \<open>
  \<^verbatim>\<open>getHtmlNode(document, root, position, includeNodeBoundary)\<close>. The result is a
  reference to a node of the document's tree or of the tree parsed from the body of a
  template script: the root of that tree and the path of the node in it.
\<close>

definition getHtmlNode ::
  "parser \<Rightarrow> text_document \<Rightarrow> node option \<Rightarrow> position \<Rightarrow> bool \<Rightarrow> (node \<times> noderef) option" where
  "getHtmlNode parse document root position includeNodeBoundary =
     (case root of
        None \<Rightarrow> None
      | Some tree \<Rightarrow>
     (case getNode (Some tree) position includeNodeBoundary of
        None \<Rightarrow> None
      | Some p \<Rightarrow>
     (case node_at tree p of
        None \<Rightarrow> None
      | Some currentNode \<Rightarrow>
     (case nclose currentNode of
        None \<Rightarrow> Some (tree, p)
      | Some close_token \<Rightarrow>
          if isTemplateScript currentNode
             \<and> isAfter position (rend (nopen currentNode))
             \<and> isBefore position (rstart close_token)
          then
            (let buffer = DocumentStreamReader document (Some (rend (nopen currentNode)))
                   (Some (Range (rend (nopen currentNode)) (rstart close_token)))
             in case parse buffer of
                  Inl e \<Rightarrow> Some (tree, p)
                | Inr scriptInnerNodes \<Rightarrow>
                    (case getNode (Some scriptInnerNodes) position includeNodeBoundary of
                       Some q \<Rightarrow> Some (scriptInnerNodes, q)
                     | None \<Rightarrow> Some (tree, p)))
          else Some (tree, p)))))"

section \<open>Stylesheet properties and embedded stylesheets\<close>

text \<open>
  \<^verbatim>\<open>getCssPropertyFromDocument(editor, position)\<close>. The first parse goes through
  \<^verbatim>\<open>parseDocument\<close>, which catches; the parse of the body of a style tag is called
  directly, so what it throws leaves the function, as does the \<^verbatim>\<open>TypeError\<close> of
  reading the start of a close tag that is not there.
\<close>

definition property_or_null :: "node \<Rightarrow> noderef option \<Rightarrow> (node \<times> noderef) option" where
  "property_or_null tree found =
     (case found of
        None \<Rightarrow> None
      | Some p \<Rightarrow>
          (case node_at tree p of
             None \<Rightarrow> None
           | Some n \<Rightarrow> if ntype n = ''property'' then Some (tree, p) else None))"

definition getCssPropertyFromDocument ::
  "parser \<Rightarrow> parser \<Rightarrow> text_document \<Rightarrow> position \<Rightarrow> error + (node \<times> noderef) option" where
  "getCssPropertyFromDocument parse parseStylesheet document position =
     (case fst (parseDocument parse parseStylesheet document True) of
        None \<Rightarrow> Inr None
      | Some rootNode \<Rightarrow>
          let found = getNode (Some rootNode) position True in
          if isStyleSheet (languageId document) then Inr (property_or_null rootNode found)
          else
            (case found of
               None \<Rightarrow> Inr None
             | Some p \<Rightarrow>
            (case node_at rootNode p of
               None \<Rightarrow> Inr None
             | Some htmlNode \<Rightarrow>
                 if nname htmlNode = ''style'' \<and> isBefore (rend (nopen htmlNode)) position then
                   (case nclose htmlNode of
                      None \<Rightarrow> Inl TypeError
                    | Some close_token \<Rightarrow>
                        if isAfter (rstart close_token) position then
                          (let buffer = DocumentStreamReader document (Some (nstart htmlNode))
                                 (Some (Range (nstart htmlNode) (nend htmlNode)))
                           in case parseStylesheet buffer of
                                Inl e \<Rightarrow> Inl e
                              | Inr styleRoot \<Rightarrow>
                                  Inr (property_or_null styleRoot
                                         (getNode (Some styleRoot) position True)))
                        else Inr None)
                 else Inr None)))"

definition getInnerRange :: "node \<Rightarrow> range option" where
  "getInnerRange currentNode =
     (case nclose currentNode of
        None \<Rightarrow> None
      | Some close_token \<Rightarrow> Some (Range (rend (nopen currentNode)) (rstart close_token)))"

definition getEmbeddedCssNodeIfAny ::
  "parser \<Rightarrow> text_document \<Rightarrow> node option \<Rightarrow> position \<Rightarrow> error + node option" where
  "getEmbeddedCssNodeIfAny parseStylesheet document currentNode position =
     (case currentNode of
        None \<Rightarrow> Inr None
      | Some currentHtmlNode \<Rightarrow>
     (case nclose currentHtmlNode of
        None \<Rightarrow> Inr None
      | Some close_token \<Rightarrow>
     (case getInnerRange currentHtmlNode of
        None \<Rightarrow> Inr None
      | Some innerRange \<Rightarrow>
          if range_contains innerRange position
             \<and> nname currentHtmlNode = ''style''
             \<and> isBefore (rend (nopen currentHtmlNode)) position
             \<and> isAfter (rstart close_token) position
          then
            (case parseStylesheet (DocumentStreamReader document (Some (rend (nopen currentHtmlNode)))
                    (Some (Range (rend (nopen currentHtmlNode)) (rstart close_token)))) of
               Inl e \<Rightarrow> Inl e
             | Inr tree \<Rightarrow> Inr (Some tree))
          else Inr None)))"

section \<open>Documents and trees of the HTML language service\<close>

text \<open>
  The language service is external. Its text document is a URI, a language identifier, a
  version and the text; offsets into the text are JavaScript numbers, here integers.
\<close>

record ls_document =
  uri :: string
  ls_languageId :: string
  version :: int
  content :: string

text \<open>\<^verbatim>\<open>String.prototype.substring\<close>: both indices are clamped to the string and swapped
  when the first is the larger.\<close>

definition substring :: "string \<Rightarrow> int \<Rightarrow> int \<Rightarrow> string" where
  "substring s a b =
     (let n = int (length s);
          a' = max 0 (min a n);
          b' = max 0 (min b n);
          lo = min a' b';
          hi = max a' b'
      in take (nat (hi - lo)) (drop (nat lo) s))"

text \<open>\<^verbatim>\<open>String.prototype.charAt\<close>: the empty string outside the text.\<close>

definition charAt :: "string \<Rightarrow> int \<Rightarrow> string" where
  "charAt s i = (if 0 \<le> i \<and> i < int (length s) then [s ! nat i] else [])"

text \<open>
  The document's \<^verbatim>\<open>offsetAt\<close>: the offsets at which lines start, a line ending at a
  carriage return, a line feed or the pair of them, and the position clamped to its line.
\<close>

fun computeLineOffsets :: "nat \<Rightarrow> string \<Rightarrow> nat list" where
  "computeLineOffsets i [] = []"
| "computeLineOffsets i [c] =
     (if c = CHR 0x0D \<or> c = CHR 0x0A then [i + 1] else [])"
| "computeLineOffsets i (c # d # cs) =
     (if c = CHR 0x0D \<and> d = CHR 0x0A then (i + 2) # computeLineOffsets (i + 2) cs
      else if c = CHR 0x0D \<or> c = CHR 0x0A then (i + 1) # computeLineOffsets (i + 1) (d # cs)
      else computeLineOffsets (i + 1) (d # cs))"

definition getLineOffsets :: "ls_document \<Rightarrow> nat list" where
  "getLineOffsets document = 0 # computeLineOffsets 0 (content document)"

definition ls_offsetAt :: "ls_document \<Rightarrow> position \<Rightarrow> int" where
  "ls_offsetAt document p =
     (let lineOffsets = getLineOffsets document in
      if line p \<ge> length lineOffsets then int (length (content document))
      else
        let lineOffset = lineOffsets ! line p;
            nextLineOffset =
              (if line p + 1 < length lineOffsets then lineOffsets ! (line p + 1)
               else length (content document))
        in int (max (min (lineOffset + character p) nextLineOffset) lineOffset))"

text \<open>
  A node of the language service's tree: an optional tag, the offsets of the node, of the
  end of its start tag and of the start of its end tag (offsets into the text, so never
  negative), its attributes with their values as
  written in the source (quotes included, or null), its children and its parent. Nodes are
  mutable objects: they live in a heap, a node's identity is its index there, and children
  and parent are such indices.
\<close>

record ls_node =
  tag :: "string option"
  ls_start :: nat
  ls_end :: nat
  startTagEnd :: "nat option"
  endTagStart :: "nat option"
  ls_attributes :: "(string \<times> string option) list option"
  ls_children :: "nat list"
  ls_parent :: "nat option"

type_synonym heap = "ls_node list"

text \<open>What the parser returns, before it is an object graph: a tree of node data.\<close>

datatype ls_tree = LSTree
  (t_tag: "string option")
  (t_start: nat)
  (t_end: nat)
  (t_startTagEnd: "nat option")
  (t_endTagStart: "nat option")
  (t_attributes: "(string \<times> string option) list option")
  (t_children: "ls_tree list")

text \<open>
  Building the object graph of a parsed tree: the node is created first, with the next free
  index, then its children from left to right, and the node's list of children is filled in.
\<close>

fun alloc_tree :: "nat option \<Rightarrow> ls_tree \<Rightarrow> heap \<Rightarrow> nat \<times> heap"
  and alloc_forest :: "nat option \<Rightarrow> ls_tree list \<Rightarrow> heap \<Rightarrow> nat list \<times> heap" where
  "alloc_tree par (LSTree tg s e ste ets attrs cs) h =
     (let n = length h;
          h1 = h @ [\<lparr>tag = tg, ls_start = s, ls_end = e, startTagEnd = ste, endTagStart = ets,
                     ls_attributes = attrs, ls_children = [], ls_parent = par\<rparr>];
          (ids, h2) = alloc_forest (Some n) cs h1
      in (n, h2[n := (h2 ! n)\<lparr>ls_children := ids\<rparr>]))"
| "alloc_forest par [] h = ([], h)"
| "alloc_forest par (t # ts) h =
     (let (i, h1) = alloc_tree par t h;
          (ids, h2) = alloc_forest par ts h1
      in (i # ids, h2))"

text \<open>
  \<^verbatim>\<open>findFirst(array, p)\<close> of the language service: a binary search for the first index
  at which \<open>p\<close> holds, the length of the array when there is none.
\<close>

function findFirst_loop :: "'a list \<Rightarrow> ('a \<Rightarrow> bool) \<Rightarrow> nat \<Rightarrow> nat \<Rightarrow> nat" where
  "findFirst_loop array p low high =
     (if low < high then
        (let mid = (low + high) div 2 in
         if mid < length array \<and> p (array ! mid) then findFirst_loop array p low mid
         else findFirst_loop array p (mid + 1) high)
      else low)"
  by pat_completeness auto
termination
  by (relation "measure (\<lambda>(array, p, low, high). high - low)") auto

declare findFirst_loop.simps [simp del]

definition findFirst :: "'a list \<Rightarrow> ('a \<Rightarrow> bool) \<Rightarrow> nat" where
  "findFirst array p = (if length array = 0 then 0 else findFirst_loop array p 0 (length array))"

text \<open>
  \<^verbatim>\<open>Node.findNodeAt(offset)\<close>: the child before the first one that starts at or after
  the offset, if the offset lies in it, and so on downwards; otherwise the node itself. A
  walk that does not end, or that meets an index that is not a node, has no result.
\<close>

partial_function (option) findNodeAt :: "heap \<Rightarrow> int \<Rightarrow> nat \<Rightarrow> nat option" where
  "findNodeAt h offset n =
     (if n < length h then
        (let cs = ls_children (h ! n);
             idx = int (findFirst cs (\<lambda>c. c < length h \<and> offset \<le> int (ls_start (h ! c)))) - 1
         in if idx \<ge> 0 then
              (let child = cs ! nat idx in
               if child < length h \<and> offset > int (ls_start (h ! child))
                  \<and> offset \<le> int (ls_end (h ! child))
               then findNodeAt h offset child
               else Some n)
            else Some n)
      else None)"

declare findNodeAt.simps [code]

section \<open>The cached markup parser\<close>

text \<open>
  Modelled from the spec: \<^verbatim>\<open>parseMarkupDocument\<close> of \<^verbatim>\<open>parseMarkupDocument.ts\<close>, which
  is not among the sources. Process-wide state: a cache of one entry, the parsed tree of a
  document key and version. With \<open>useCache\<close> and a matching entry the cached tree is
  returned; otherwise the document is parsed afresh and, with \<open>useCache\<close>, the entry is
  replaced. The state of the model is the heap of nodes and the cache entry, the cached
  tree as the index of its root.
\<close>

record ls_state =
  heap :: heap
  parseCache :: "(string \<times> int \<times> nat) option"

definition parseMarkupDocument ::
  "(ls_document \<Rightarrow> ls_tree) \<Rightarrow> ls_state \<Rightarrow> ls_document \<Rightarrow> bool \<Rightarrow> nat \<times> ls_state" where
  "parseMarkupDocument parseHTMLDocument st document useCache =
     (case (if useCache then parseCache st else None) of
        Some (key, ver, cached) \<Rightarrow>
          if key = uri document \<and> ver = version document then (cached, st)
          else
            (let (root, h) = alloc_tree None (parseHTMLDocument document) (heap st)
             in (root, st\<lparr>heap := h, parseCache := Some (uri document, version document, root)\<rparr>))
      | None \<Rightarrow>
          (let (root, h) = alloc_tree None (parseHTMLDocument document) (heap st)
           in (root, if useCache
                     then st\<lparr>heap := h, parseCache := Some (uri document, version document, root)\<rparr>
                     else st\<lparr>heap := h\<rparr>)))"

section \<open>Template-aware node resolution on the language service's tree\<close>

definition isNodeTemplateScriptLS :: "ls_node \<Rightarrow> bool" where
  "isNodeTemplateScriptLS node =
     (if tag node = Some ''script'' then
        (case ls_attributes node of
           None \<Rightarrow> False
         | Some attrs \<Rightarrow>
             (case map_of attrs ''type'' of
                None \<Rightarrow> False
              | Some None \<Rightarrow> False
              | Some (Some scriptType) \<Rightarrow>
                  scriptType \<noteq> [] \<and>
                  substring scriptType 1 (int (length scriptType) - 1)
                    \<in> set allowedMimeTypesInScriptTag))
      else False)"

definition truthy :: "nat option \<Rightarrow> bool" where
  "truthy v = (case v of None \<Rightarrow> False | Some x \<Rightarrow> x \<noteq> 0)"

text \<open>
  The test on the offset: \<^verbatim>\<open>currentNode.startTagEnd && offset > currentNode.startTagEnd
  && (!currentNode.endTagStart || offset < currentNode.endTagStart)\<close>.
\<close>

definition insideScriptBody :: "ls_node \<Rightarrow> int \<Rightarrow> bool" where
  "insideScriptBody node offset =
     (truthy (startTagEnd node)
      \<and> offset > int (case startTagEnd node of Some x \<Rightarrow> x | None \<Rightarrow> 0)
      \<and> (\<not> truthy (endTagStart node)
          \<or> offset < int (case endTagStart node of Some x \<Rightarrow> x | None \<Rightarrow> 0)))"

definition scriptBodyText :: "ls_document \<Rightarrow> ls_node \<Rightarrow> string" where
  "scriptBodyText document currentNode =
     (let documentText = content document;
          ste = (case startTagEnd currentNode of Some x \<Rightarrow> x | None \<Rightarrow> 0);
          beforePadding = replicate ste CHR '' ''
      in beforePadding @
         substring documentText (int ste)
           (int (case endTagStart currentNode of Some x \<Rightarrow> x | None \<Rightarrow> ls_end currentNode)))"

definition scriptBodyDocument :: "ls_document \<Rightarrow> ls_node \<Rightarrow> ls_document" where
  "scriptBodyDocument document currentNode =
     \<lparr>uri = uri document, ls_languageId = ls_languageId document, version = version document,
      content = scriptBodyText document currentNode\<rparr>"

text \<open>
  The splice: \<^verbatim>\<open>scriptBodyNode.parent = currentNode;
  currentNode.children.push(scriptBodyNode)\<close>.
\<close>

definition splice :: "nat \<Rightarrow> nat \<Rightarrow> heap \<Rightarrow> heap" where
  "splice currentNode scriptBodyNode h =
     (let h1 = h[scriptBodyNode := (h ! scriptBodyNode)\<lparr>ls_parent := Some currentNode\<rparr>]
      in h1[currentNode := (h1 ! currentNode)
              \<lparr>ls_children := ls_children (h1 ! currentNode) @ [scriptBodyNode]\<rparr>])"

text \<open>
  What follows the recursive call: a node found in the body of the script is spliced in and
  returned, and the script node is returned when none is found.
\<close>

definition attach :: "nat \<Rightarrow> nat option \<times> ls_state \<Rightarrow> (nat option \<times> ls_state) option" where
  "attach currentNode r =
     (case r of
        (None, st2) \<Rightarrow> Some (Some currentNode, st2)
      | (Some scriptBodyNode, st2) \<Rightarrow>
          Some (Some scriptBodyNode,
                st2\<lparr>heap := splice currentNode scriptBodyNode (heap st2)\<rparr>))"

partial_function (option) getHtmlNodeLSInternal ::
  "(ls_document \<Rightarrow> ls_tree) \<Rightarrow> ls_state \<Rightarrow> ls_document \<Rightarrow> int \<Rightarrow> bool
   \<Rightarrow> (nat option \<times> ls_state) option" where
  "getHtmlNodeLSInternal parseHTMLDocument st document offset isInTemplateNode =
     (let useCache = \<not> isInTemplateNode;
          parsed = parseMarkupDocument parseHTMLDocument st document useCache;
          st1 = snd parsed
      in case findNodeAt (heap st1) offset (fst parsed) of
           None \<Rightarrow> None
         | Some currentNode \<Rightarrow>
             (let node = heap st1 ! currentNode in
              if tag node = None \<or> tag node = Some [] then Some (None, st1)
              else if isNodeTemplateScriptLS node \<and> insideScriptBody node offset
              then
                Option.bind
                  (getHtmlNodeLSInternal parseHTMLDocument st1
                     (scriptBodyDocument document node) offset True)
                  (attach currentNode)
              else Some (Some currentNode, st1)))"

declare getHtmlNodeLSInternal.simps [code]

text \<open>\<^verbatim>\<open>getHtmlNodeLS(document, position, includeNodeBoundary)\<close>.\<close>

definition selectionStartOffset :: "ls_document \<Rightarrow> position \<Rightarrow> bool \<Rightarrow> int" where
  "selectionStartOffset document position includeNodeBoundary =
     (let documentText = content document;
          offset = ls_offsetAt document position
      in if includeNodeBoundary \<and> charAt documentText offset = ''<'' then offset + 1
         else if includeNodeBoundary \<and> charAt documentText offset = ''>'' then offset - 1
         else offset)"

definition getHtmlNodeLS ::
  "(ls_document \<Rightarrow> ls_tree) \<Rightarrow> ls_state \<Rightarrow> ls_document \<Rightarrow> position \<Rightarrow> bool
   \<Rightarrow> (nat option \<times> ls_state) option" where
  "getHtmlNodeLS parseHTMLDocument st document position includeNodeBoundary =
     getHtmlNodeLSInternal parseHTMLDocument st document
       (selectionStartOffset document position includeNodeBoundary) False"

section \<open>Offsets and text of a document\<close>

text \<open>
  The editor's document maps positions to offsets and back and returns the text of a range.
  A position is first validated: a line past the last one becomes the end of the document, a
  character past the end of its line the end of that line. Offsets count the characters of
  the lines and of the line terminators between them.
\<close>

definition eol_text :: "EndOfLine \<Rightarrow> string" where
  "eol_text e = (case e of LF \<Rightarrow> [CHR 0x0A] | CRLF \<Rightarrow> [CHR 0x0D, CHR 0x0A])"

definition eol_length :: "text_document \<Rightarrow> nat" where
  "eol_length document = length (eol_text (eol document))"

definition validatePosition :: "text_document \<Rightarrow> position \<Rightarrow> position" where
  "validatePosition document p =
     (if line p \<ge> lineCount document then document_end document
      else Position (line p) (min (character p) (length (text_lines document ! line p))))"

definition line_start :: "text_document \<Rightarrow> nat \<Rightarrow> nat" where
  "line_start document l =
     sum_list (map (\<lambda>t. length t + eol_length document) (take l (text_lines document)))"

definition offsetAt :: "text_document \<Rightarrow> position \<Rightarrow> nat" where
  "offsetAt document p =
     (let q = validatePosition document p in line_start document (line q) + character q)"

fun positionAt_lines :: "string list \<Rightarrow> nat \<Rightarrow> nat \<Rightarrow> nat \<Rightarrow> position" where
  "positionAt_lines [] e i off = Position i 0"
| "positionAt_lines [t] e i off = Position i (min off (length t))"
| "positionAt_lines (t # u # ts) e i off =
     (if off < length t + e then Position i (min off (length t))
      else positionAt_lines (u # ts) e (Suc i) (off - (length t + e)))"

definition positionAt :: "text_document \<Rightarrow> int \<Rightarrow> position" where
  "positionAt document offset =
     positionAt_lines (text_lines document) (eol_length document) 0 (nat (max 0 offset))"

fun join_lines :: "string \<Rightarrow> string list \<Rightarrow> string" where
  "join_lines e [] = []"
| "join_lines e [t] = t"
| "join_lines e (t # u # ts) = t @ e @ join_lines e (u # ts)"

definition full_text :: "text_document \<Rightarrow> string" where
  "full_text document = join_lines (eol_text (eol document)) (text_lines document)"

definition getText :: "text_document \<Rightarrow> range \<Rightarrow> string" where
  "getText document r =
     (let a = offsetAt document (rstart r);
          b = offsetAt document (rend r)
      in take (b - a) (drop a (full_text document)))"

text \<open>\<^verbatim>\<open>String.prototype.indexOf\<close> and \<^verbatim>\<open>lastIndexOf\<close>, with \<open>None\<close> for -1.\<close>

fun indexOf_from :: "string \<Rightarrow> string \<Rightarrow> nat \<Rightarrow> nat option" where
  "indexOf_from [] needle i = (if needle = [] then Some i else None)"
| "indexOf_from (c # cs) needle i =
     (if take (length needle) (c # cs) = needle then Some i
      else indexOf_from cs needle (Suc i))"

definition indexOf :: "string \<Rightarrow> string \<Rightarrow> nat option" where
  "indexOf text needle = indexOf_from text needle 0"

fun lastIndexOf_from :: "string \<Rightarrow> string \<Rightarrow> nat \<Rightarrow> nat option \<Rightarrow> nat option" where
  "lastIndexOf_from [] needle i found = (if needle = [] then Some i else found)"
| "lastIndexOf_from (c # cs) needle i found =
     lastIndexOf_from cs needle (Suc i)
       (if take (length needle) (c # cs) = needle then Some i else found)"

definition lastIndexOf :: "string \<Rightarrow> string \<Rightarrow> nat option" where
  "lastIndexOf text needle = lastIndexOf_from text needle 0 None"

section \<open>Operations of the stream reader\<close>

text \<open>
  Modelled from the spec: the operations of \<^verbatim>\<open>DocumentStreamReader\<close> (peek, consume one,
  back up by n, start and end of stream), in terms of character codes; \<open>None\<close> is the
  \<^verbatim>\<open>NaN\<close> that stands for no character. The reader looks lines up in the document, and
  the document raises for a line that does not exist: backing up from the start of the
  first line asks for the length of the line before it and raises.
\<close>

definition sof :: "stream \<Rightarrow> bool" where
  "sof s = isBeforeOrEqual (sr_pos s) (sr_sof s)"

definition eof :: "stream \<Rightarrow> bool" where
  "eof s = isAfterOrEqual (sr_pos s) (sr_eof s)"

definition lineLength :: "text_document \<Rightarrow> int \<Rightarrow> error + nat" where
  "lineLength document row =
     (case lineAt document row of
        Inl e \<Rightarrow> Inl e
      | Inr t \<Rightarrow>
          if row = int (lineCount document) - 1 then Inr (length t)
          else Inr (length t + eol_length document))"

definition charCodeAt :: "string \<Rightarrow> nat \<Rightarrow> nat option" where
  "charCodeAt t i = (if i < length t then Some (of_char (t ! i)) else None)"

definition char_code_at_pos :: "text_document \<Rightarrow> string \<Rightarrow> nat \<Rightarrow> nat option" where
  "char_code_at_pos document t c =
     (if c < length t then charCodeAt t c
      else charCodeAt (eol_text (eol document)) (c - length t))"

definition peek :: "stream \<Rightarrow> error + nat option" where
  "peek s =
     (if eof s then Inr None
      else case lineAt (sr_document s) (int (line (sr_pos s))) of
             Inl e \<Rightarrow> Inl e
           | Inr t \<Rightarrow> Inr (char_code_at_pos (sr_document s) t (character (sr_pos s))))"

definition restrict_to_eof :: "stream \<Rightarrow> stream" where
  "restrict_to_eof s =
     (if eof s then s\<lparr>sr_pos := Position (line (sr_eof s)) (character (sr_eof s))\<rparr> else s)"

definition next_char :: "stream \<Rightarrow> error + (nat option \<times> stream)" where
  "next_char s =
     (if eof s then Inr (None, s)
      else case lineAt (sr_document s) (int (line (sr_pos s))) of
             Inl e \<Rightarrow> Inl e
           | Inr t \<Rightarrow>
               let p = sr_pos s;
                   code = char_code_at_pos (sr_document s) t (character p);
                   s1 = (if character p < length t
                         then s\<lparr>sr_pos := Position (line p) (character p + 1)\<rparr>
                         else s\<lparr>sr_pos := Position (line p + 1) 0\<rparr>)
               in Inr (code, restrict_to_eof s1))"

function backUp_loop :: "text_document \<Rightarrow> int \<Rightarrow> int \<Rightarrow> error + (int \<times> int)" where
  "backUp_loop document row column =
     (if row \<ge> 0 \<and> column < 0 then
        (case lineLength document (row - 1) of
           Inl e \<Rightarrow> Inl e
         | Inr n \<Rightarrow> backUp_loop document (row - 1) (column + int n))
      else Inr (row, column))"
  by pat_completeness auto
termination
  by (relation "measure (\<lambda>(document, row, column). nat (row + 1))")
     (auto simp: lineLength_def lineAt_def split: sum.splits if_splits)

declare backUp_loop.simps [simp del]

definition backUp :: "stream \<Rightarrow> nat \<Rightarrow> error + (nat option \<times> stream)" where
  "backUp s n =
     (case backUp_loop (sr_document s) (int (line (sr_pos s)))
             (int (character (sr_pos s)) - int (if n = 0 then 1 else n)) of
        Inl e \<Rightarrow> Inl e
      | Inr (row, column) \<Rightarrow>
          let s1 = s\<lparr>sr_pos := (if row < 0 \<or> column < 0 then Position 0 0
                                 else Position (nat row) (nat column))\<rparr>
          in case peek s1 of Inl e \<Rightarrow> Inl e | Inr code \<Rightarrow> Inr (code, s1))"

definition eat :: "stream \<Rightarrow> nat \<Rightarrow> error + (bool \<times> stream)" where
  "eat s match =
     (case peek s of
        Inl e \<Rightarrow> Inl e
      | Inr ch \<Rightarrow>
          if ch = Some match then
            (case next_char s of Inl e \<Rightarrow> Inl e | Inr (c, s1) \<Rightarrow> Inr (True, s1))
          else Inr (False, s))"

section \<open>The partial stylesheet extractor\<close>

definition closeBrace :: nat where "closeBrace = 125"
definition openBrace :: nat where "openBrace = 123"
definition slash :: nat where "slash = 47"
definition star :: nat where "star = 42"

definition findOpeningCommentBeforePosition :: "text_document \<Rightarrow> position \<Rightarrow> position option" where
  "findOpeningCommentBeforePosition document p =
     (case lastIndexOf (getText document (Range (Position 0 0) p)) ''/*'' of
        None \<Rightarrow> None
      | Some offset \<Rightarrow> Some (positionAt document (int offset)))"

definition findClosingCommentAfterPosition :: "text_document \<Rightarrow> position \<Rightarrow> position option" where
  "findClosingCommentAfterPosition document p =
     (case indexOf (getText document (Range p (document_end document))) ''*/'' of
        None \<Rightarrow> None
      | Some offset \<Rightarrow> Some (positionAt document (int (offset + 2 + offsetAt document p))))"

text \<open>
  The variables of \<^verbatim>\<open>parsePartialStylesheet\<close> that its loops and local functions read
  and write.
\<close>

record scan =
  sc_stream :: stream
  startPosition :: position
  endPosition :: position
  openBracesToFind :: int
  currentLine :: nat
  exit :: bool
  foundSelector :: bool

definition set_pos :: "position \<Rightarrow> scan \<Rightarrow> scan" where
  "set_pos p sc = sc\<lparr>sc_stream := (sc_stream sc)\<lparr>sr_pos := p\<rparr>\<rparr>"

definition consumeLineCommentBackwards :: "bool \<Rightarrow> text_document \<Rightarrow> scan \<Rightarrow> error + scan" where
  "consumeLineCommentBackwards isCSS document sc =
     (if \<not> isCSS \<and> currentLine sc \<noteq> line (sr_pos (sc_stream sc)) then
        (let l = line (sr_pos (sc_stream sc)) in
         case lineAt document (int l) of
           Inl e \<Rightarrow> Inl e
         | Inr t \<Rightarrow>
             (case indexOf t ''//'' of
                Some startLineComment \<Rightarrow>
                  Inr (set_pos (Position l startLineComment) (sc\<lparr>currentLine := l\<rparr>))
              | None \<Rightarrow> Inr (sc\<lparr>currentLine := l\<rparr>)))
      else Inr sc)"

definition consumeBlockCommentBackwards :: "text_document \<Rightarrow> scan \<Rightarrow> error + scan" where
  "consumeBlockCommentBackwards document sc =
     (case peek (sc_stream sc) of
        Inl e \<Rightarrow> Inl e
      | Inr c \<Rightarrow>
          if c = Some slash then
            (case backUp (sc_stream sc) 1 of
               Inl e \<Rightarrow> Inl e
             | Inr (c1, s1) \<Rightarrow>
                 if c1 = Some star then
                   Inr (sc\<lparr>sc_stream := s1\<lparr>sr_pos :=
                          (case findOpeningCommentBeforePosition document (sr_pos s1) of
                             Some q \<Rightarrow> q
                           | None \<Rightarrow> startPosition sc)\<rparr>\<rparr>)
                 else
                   (case next_char s1 of
                      Inl e \<Rightarrow> Inl e
                    | Inr (c2, s2) \<Rightarrow> Inr (sc\<lparr>sc_stream := s2\<rparr>)))
          else Inr sc)"

definition consumeCommentForwards ::
  "bool \<Rightarrow> text_document \<Rightarrow> position \<Rightarrow> stream \<Rightarrow> error + stream" where
  "consumeCommentForwards isCSS document endPos s =
     (case eat s slash of
        Inl e \<Rightarrow> Inl e
      | Inr (ok1, s1) \<Rightarrow>
          if ok1 then
            (case eat s1 slash of
               Inl e \<Rightarrow> Inl e
             | Inr (ok2, s2) \<Rightarrow>
                 if ok2 \<and> \<not> isCSS then Inr (s2\<lparr>sr_pos := Position (line (sr_pos s2) + 1) 0\<rparr>)
                 else
                   (case eat s2 star of
                      Inl e \<Rightarrow> Inl e
                    | Inr (ok3, s3) \<Rightarrow>
                        if ok3 then
                          Inr (s3\<lparr>sr_pos :=
                                 (case findClosingCommentAfterPosition document (sr_pos s3) of
                                    Some q \<Rightarrow> q
                                  | None \<Rightarrow> endPos)\<rparr>)
                        else Inr s3))
          else Inr s1)"

text \<open>
  The forward loop: \<^verbatim>\<open>while (!stream.eof() && !stream.eat(closeBrace))\<close>. One round
  either ends the loop (at the end of the stream, or having eaten a closing brace), raises,
  or goes on from a later stream.
\<close>

datatype 'a round = Done 'a | Raised error | Again 'a

definition forward_round :: "bool \<Rightarrow> text_document \<Rightarrow> position \<Rightarrow> stream \<Rightarrow> stream round" where
  "forward_round isCSS document endPos s =
     (if eof s then Done s
      else case eat s closeBrace of
             Inl e \<Rightarrow> Raised e
           | Inr (ok, s1) \<Rightarrow>
               if ok then Done s1
               else
                 (case peek s1 of
                    Inl e \<Rightarrow> Raised e
                  | Inr c \<Rightarrow>
                      if c = Some slash then
                        (case consumeCommentForwards isCSS document endPos s1 of
                           Inl e \<Rightarrow> Raised e
                         | Inr s2 \<Rightarrow> Again s2)
                      else
                        (case next_char s1 of
                           Inl e \<Rightarrow> Raised e
                         | Inr (c1, s2) \<Rightarrow> Again s2)))"

partial_function (option) forward_loop ::
  "bool \<Rightarrow> text_document \<Rightarrow> position \<Rightarrow> stream \<Rightarrow> (error + stream) option" where
  "forward_loop isCSS document endPos s =
     (case forward_round isCSS document endPos s of
        Done s1 \<Rightarrow> Some (Inr s1)
      | Raised e \<Rightarrow> Some (Inl e)
      | Again s1 \<Rightarrow> forward_loop isCSS document endPos s1)"

declare forward_loop.simps [code]

text \<open>
  The body of the first backward loop: the line comment, one step back with the
  \<^verbatim>\<open>switch\<close> on the character found there, and the test of the two cut-offs.
\<close>

definition backward_switch :: "bool \<Rightarrow> text_document \<Rightarrow> nat option \<Rightarrow> scan \<Rightarrow> error + scan" where
  "backward_switch isCSS document code sc =
     (if code = Some openBrace then Inr (sc\<lparr>openBracesToFind := openBracesToFind sc - 1\<rparr>)
      else if code = Some closeBrace then
        (if isCSS then
           (case next_char (sc_stream sc) of
              Inl e \<Rightarrow> Inl e
            | Inr (c, s1) \<Rightarrow> Inr (sc\<lparr>sc_stream := s1, startPosition := sr_pos s1, exit := True\<rparr>))
         else Inr (sc\<lparr>openBracesToFind := openBracesToFind sc + 1\<rparr>))
      else if code = Some slash then consumeBlockCommentBackwards document sc
      else Inr sc)"

definition cutoff :: "position \<Rightarrow> position \<Rightarrow> scan \<Rightarrow> scan" where
  "cutoff position limitPosition sc =
     (if int (line position) - int (line (sr_pos (sc_stream sc))) > 100
         \<or> isBeforeOrEqual (sr_pos (sc_stream sc)) limitPosition
      then sc\<lparr>exit := True\<rparr> else sc)"

definition backward_step ::
  "bool \<Rightarrow> text_document \<Rightarrow> position \<Rightarrow> position \<Rightarrow> scan \<Rightarrow> error + scan" where
  "backward_step isCSS document position limitPosition sc =
     (case consumeLineCommentBackwards isCSS document sc of
        Inl e \<Rightarrow> Inl e
      | Inr sc1 \<Rightarrow>
          (case backUp (sc_stream sc1) 1 of
             Inl e \<Rightarrow> Inl e
           | Inr (code, s2) \<Rightarrow>
               (case backward_switch isCSS document code (sc1\<lparr>sc_stream := s2\<rparr>) of
                  Inl e \<Rightarrow> Inl e
                | Inr sc3 \<Rightarrow> Inr (cutoff position limitPosition sc3))))"

text \<open>
  The first backward loop:
  \<^verbatim>\<open>while (!exit && openBracesToFind > 0 && !stream.sof())\<close>.
\<close>

definition backward_guard :: "scan \<Rightarrow> bool" where
  "backward_guard sc = (\<not> exit sc \<and> openBracesToFind sc > 0 \<and> \<not> sof (sc_stream sc))"

partial_function (option) backward_loop ::
  "bool \<Rightarrow> text_document \<Rightarrow> position \<Rightarrow> position \<Rightarrow> scan \<Rightarrow> (error + scan) option" where
  "backward_loop isCSS document position limitPosition sc =
     (if backward_guard sc then
        (case backward_step isCSS document position limitPosition sc of
           Inl e \<Rightarrow> Some (Inl e)
         | Inr sc1 \<Rightarrow> backward_loop isCSS document position limitPosition sc1)
      else Some (Inr sc))"

declare backward_loop.simps [code]

text \<open>
  The second backward loop, which takes in the selector:
  \<^verbatim>\<open>while (!exit && !stream.sof() && !foundSelector && openBracesToFind >= 0)\<close>.
  \<^verbatim>\<open>/\s/\<close> matches the white space characters; those with a code below 256 are listed.
\<close>

definition isWhitespace :: "nat option \<Rightarrow> bool" where
  "isWhitespace ch = (case ch of None \<Rightarrow> False | Some c \<Rightarrow> c \<in> set [9, 10, 11, 12, 13, 32, 160])"

definition selector_switch :: "text_document \<Rightarrow> nat option \<Rightarrow> scan \<Rightarrow> error + scan" where
  "selector_switch document ch sc =
     (if ch = Some slash then consumeBlockCommentBackwards document sc
      else if ch = Some closeBrace then Inr (sc\<lparr>openBracesToFind := openBracesToFind sc + 1\<rparr>)
      else if ch = Some openBrace then Inr (sc\<lparr>openBracesToFind := openBracesToFind sc - 1\<rparr>)
      else if openBracesToFind sc = 0 then Inr (sc\<lparr>foundSelector := True\<rparr>)
      else Inr sc)"

definition selector_step :: "bool \<Rightarrow> text_document \<Rightarrow> scan \<Rightarrow> error + scan" where
  "selector_step isCSS document sc =
     (case consumeLineCommentBackwards isCSS document sc of
        Inl e \<Rightarrow> Inl e
      | Inr sc1 \<Rightarrow>
          (case backUp (sc_stream sc1) 1 of
             Inl e \<Rightarrow> Inl e
           | Inr (ch, s2) \<Rightarrow>
               if isWhitespace ch then Inr (sc1\<lparr>sc_stream := s2\<rparr>)
               else
                 (case selector_switch document ch (sc1\<lparr>sc_stream := s2\<rparr>) of
                    Inl e \<Rightarrow> Inl e
                  | Inr sc3 \<Rightarrow>
                      Inr (if \<not> sof (sc_stream sc3) \<and> foundSelector sc3
                           then sc3\<lparr>startPosition := sr_pos (sc_stream sc3)\<rparr> else sc3))))"

definition selector_guard :: "scan \<Rightarrow> bool" where
  "selector_guard sc =
     (\<not> exit sc \<and> \<not> sof (sc_stream sc) \<and> \<not> foundSelector sc \<and> openBracesToFind sc \<ge> 0)"

partial_function (option) selector_loop ::
  "bool \<Rightarrow> text_document \<Rightarrow> scan \<Rightarrow> (error + scan) option" where
  "selector_loop isCSS document sc =
     (if selector_guard sc then
        (case selector_step isCSS document sc of
           Inl e \<Rightarrow> Some (Inl e)
         | Inr sc1 \<Rightarrow> selector_loop isCSS document sc1)
      else Some (Inr sc))"

declare selector_loop.simps [code]

text \<open>
  \<^verbatim>\<open>parsePartialStylesheet(document, position)\<close>, in its three phases. \<open>None\<close> is a
  scan that does not end, \<open>Some (Inl e)\<close> an exception that leaves the function.
\<close>

definition limitPosition_of :: "text_document \<Rightarrow> position \<Rightarrow> position" where
  "limitPosition_of document position =
     (let limitCharacter = int (offsetAt document position) - 5000
      in if limitCharacter > 0 then positionAt document limitCharacter else Position 0 0)"

definition forward_scan :: "text_document \<Rightarrow> position \<Rightarrow> (error + scan) option" where
  "forward_scan document position =
     (let isCSS = (languageId document = ''css'');
          endPos = document_end document;
          s = DocumentStreamReader document (Some position) None
      in case forward_loop isCSS document endPos s of
           None \<Rightarrow> None
         | Some (Inl e) \<Rightarrow> Some (Inl e)
         | Some (Inr s1) \<Rightarrow>
             Some (Inr \<lparr>sc_stream = s1\<lparr>sr_pos := position\<rparr>,
                        startPosition = Position 0 0,
                        endPosition = (if \<not> eof s1 then sr_pos s1 else endPos),
                        openBracesToFind = 1,
                        currentLine = line position,
                        exit = False,
                        foundSelector = False\<rparr>))"

definition backward_scan :: "text_document \<Rightarrow> position \<Rightarrow> scan \<Rightarrow> (error + scan) option" where
  "backward_scan document position sc =
     backward_loop (languageId document = ''css'') document position
       (limitPosition_of document position) sc"

definition selector_scan :: "text_document \<Rightarrow> scan \<Rightarrow> (error + scan) option" where
  "selector_scan document sc =
     selector_loop (languageId document = ''css'') document
       (sc\<lparr>currentLine := line (sr_pos (sc_stream sc)), openBracesToFind := 0,
           foundSelector := False\<rparr>)"

definition then_scan ::
  "(error + scan) option \<Rightarrow> (scan \<Rightarrow> (error + scan) option) \<Rightarrow> (error + scan) option" where
  "then_scan r f = (case r of None \<Rightarrow> None | Some (Inl e) \<Rightarrow> Some (Inl e) | Some (Inr sc) \<Rightarrow> f sc)"

definition partial_boundaries :: "text_document \<Rightarrow> position \<Rightarrow> (error + scan) option" where
  "partial_boundaries document position =
     then_scan (then_scan (forward_scan document position) (backward_scan document position))
       (selector_scan document)"

definition parsePartialStylesheet ::
  "parser \<Rightarrow> text_document \<Rightarrow> position \<Rightarrow> (error + node option) option" where
  "parsePartialStylesheet parseStylesheet document position =
     (case partial_boundaries document position of
        None \<Rightarrow> None
      | Some (Inl e) \<Rightarrow> Some (Inl e)
      | Some (Inr sc) \<Rightarrow>
          (case parseStylesheet
                  (DocumentStreamReader document (Some (startPosition sc))
                     (Some (Range (startPosition sc) (endPosition sc)))) of
             Inl e \<Rightarrow> Some (Inr None)
           | Inr tree \<Rightarrow> Some (Inr (Some tree))))"

definition css_document :: "string list \<Rightarrow> text_document" where
  "css_document ls = \<lparr>doc_lines = ls, eol = LF, languageId = ''css''\<rparr>"

definition scss_document :: "string list \<Rightarrow> text_document" where
  "scss_document ls = \<lparr>doc_lines = ls, eol = LF, languageId = ''scss''\<rparr>"

section \<open>Streams over the whole document\<close>

text \<open>
  The reader that \<^verbatim>\<open>parsePartialStylesheet\<close> scans with has no limit: its start is the
  start of the document and its end the document's end. A position is in a line when it
  stands before a character of that line.
\<close>

definition unlimited :: "text_document \<Rightarrow> stream \<Rightarrow> bool" where
  "unlimited document s =
     (sr_document s = document \<and> sr_sof s = Position 0 0 \<and> sr_eof s = document_end document)"

definition in_line :: "text_document \<Rightarrow> position \<Rightarrow> bool" where
  "in_line document p =
     (line p < lineCount document \<and> character p < length (text_lines document ! line p))"

definition scan_at :: "text_document \<Rightarrow> position \<Rightarrow> scan" where
  "scan_at document position =
     \<lparr>sc_stream = DocumentStreamReader document (Some position) None,
      startPosition = Position 0 0,
      endPosition = document_end document,
      openBracesToFind = 1,
      currentLine = line position,
      exit = False,
      foundSelector = False\<rparr>"

text \<open>
  A position is valid when it is in a line or at its end; \<open>later\<close> is a valid position
  after another one. The scans are measured by what is left of the document: the lines from
  the reader's on, then the characters of its line.
\<close>

definition valid_position :: "text_document \<Rightarrow> position \<Rightarrow> bool" where
  "valid_position document p =
     (line p < lineCount document \<and> character p \<le> length (text_lines document ! line p))"

definition later :: "text_document \<Rightarrow> position \<Rightarrow> position \<Rightarrow> bool" where
  "later document p q = (valid_position document q \<and> isBefore p q)"

definition forward_measure :: "text_document \<Rightarrow> stream \<Rightarrow> nat \<times> nat" where
  "forward_measure document s =
     (if eof s then (0, 0)
      else (lineCount document - line (sr_pos s),
            Suc (length (text_lines document ! line (sr_pos s))) - character (sr_pos s)))"

text \<open>
  The code of the character at a position, and documents without a slash, in which no
  comment starts.
\<close>

definition code_at :: "text_document \<Rightarrow> position \<Rightarrow> nat" where
  "code_at document p = of_char (text_lines document ! line p ! character p)"

definition slash_free :: "text_document \<Rightarrow> bool" where
  "slash_free document = (\<forall>t \<in> set (text_lines document). CHR ''/'' \<notin> set t)"

text \<open>
  In the words of the specification, the forward scan stops at an unmatched closing brace:
  the first one that closes no brace opened since the cursor. \<open>unmatched_closing_brace\<close>
  finds it in the text that starts at the cursor, counting the open braces.
\<close>

fun unmatched_closing_brace :: "string \<Rightarrow> nat \<Rightarrow> nat \<Rightarrow> nat option" where
  "unmatched_closing_brace [] depth i = None"
| "unmatched_closing_brace (c # cs) depth i =
     (if c = CHR ''}'' then
        (if depth = 0 then Some i else unmatched_closing_brace cs (depth - 1) (Suc i))
      else if c = CHR ''{'' then unmatched_closing_brace cs (Suc depth) (Suc i)
      else unmatched_closing_brace cs depth (Suc i))"



text \<open>
  A plain character is neither a brace nor a slash: the backward scan steps over it.
\<close>

definition plain_char :: "char \<Rightarrow> bool" where
  "plain_char ch = (ch \<notin> {CHR ''{'', CHR ''}'', CHR ''/''})"

section \<open>The path of the forward scan\<close>

text \<open>
  In the words of the claim: the forward scan goes through the text from the cursor. From a
  position where \<^verbatim>\<open>/*\<close> stands it goes on just after the next \<^verbatim>\<open>*/\<close>, which is looked
  for in the rest of the line from two characters on and then in the lines after it, or at
  the end of the document if there is none; from a position where \<^verbatim>\<open>//\<close> stands, in a
  dialect other than \<^verbatim>\<open>css\<close>, at the start of the next line; from any other position at
  the next character, or at the start of the next line when the line is at its end. It stops
  at a closing brace and at the end of the document.
\<close>

fun find_in_lines :: "string list \<Rightarrow> nat \<Rightarrow> nat \<Rightarrow> position option" where
  "find_in_lines [] l c = None"
| "find_in_lines (t # ts) l c =
     (case indexOf (drop c t) ''*/'' of
        Some i \<Rightarrow> Some (Position l (c + i + 2))
      | None \<Rightarrow> find_in_lines ts (Suc l) 0)"

definition text_at :: "text_document \<Rightarrow> position \<Rightarrow> string \<Rightarrow> bool" where
  "text_at document p s =
     (line p < lineCount document
      \<and> take (length s) (drop (character p) (text_lines document ! line p)) = s)"

definition next_position :: "text_document \<Rightarrow> position \<Rightarrow> position" where
  "next_position document p =
     (if in_line document p then Position (line p) (character p + 1)
      else Position (line p + 1) 0)"

definition after_comment :: "text_document \<Rightarrow> position \<Rightarrow> position" where
  "after_comment document p =
     (case find_in_lines (drop (line p) (text_lines document)) (line p) (character p) of
        Some q \<Rightarrow> q
      | None \<Rightarrow> document_end document)"

definition skip_from :: "text_document \<Rightarrow> position \<Rightarrow> position" where
  "skip_from document p =
     (if text_at document p ''/*''
      then after_comment document (Position (line p) (character p + 2))
      else if text_at document p ''//'' \<and> languageId document \<noteq> ''css''
      then Position (line p + 1) 0
      else next_position document p)"

definition scan_stops :: "text_document \<Rightarrow> position \<Rightarrow> bool" where
  "scan_stops document p =
     (isAfterOrEqual p (document_end document)
      \<or> (in_line document p \<and> code_at document p = closeBrace))"

section \<open>Example trees\<close>

definition example_leaf :: "nat \<Rightarrow> nat \<Rightarrow> node" where
  "example_leaf s e =
     Node (Position 0 s) (Position 0 e) ''div'' ''tag'' (Some [])
       \<lparr>rstart = Position 0 s, rend = Position 0 s\<rparr> None []"

definition example_root :: "node list \<Rightarrow> node" where
  "example_root ns =
     Node (Position 0 0) (Position 0 50) [] ''root'' None
       \<lparr>rstart = Position 0 0, rend = Position 0 0\<rparr> None ns"

definition example_parent :: "nat \<Rightarrow> nat \<Rightarrow> node list \<Rightarrow> node" where
  "example_parent s e ns =
     Node (Position 0 s) (Position 0 e) ''div'' ''tag'' (Some [])
       \<lparr>rstart = Position 0 s, rend = Position 0 s\<rparr> None ns"



definition touching_siblings :: node where
  "touching_siblings =
     example_root [example_leaf 10 20, example_parent 20 30 [example_leaf 20 25]]"

definition adjacent_example :: node where
  "adjacent_example =
     example_root [example_parent 10 20 [example_leaf 12 15],
                   example_parent 20 30 [example_leaf 22 25]]"

definition nested_example :: node where
  "nested_example =
     example_root [example_parent 10 20 [example_leaf 12 15], example_leaf 20 30]"

definition script_node :: node where
  "script_node =
     Node (Position 0 0) (Position 0 39) ''script'' ''tag'' (Some [(''type'', ''text/html'')])
       \<lparr>rstart = Position 0 0, rend = Position 0 23\<rparr>
       (Some \<lparr>rstart = Position 0 30, rend = Position 0 39\<rparr>) []"

definition script_document :: text_document where
  "script_document =
     \<lparr>doc_lines = [''<script type=text/html><b></b></script>''], eol = LF, languageId = ''html''\<rparr>"

definition script_tree :: node where
  "script_tree = example_root [script_node]"

definition script_body_tree :: node where
  "script_body_tree = example_root [example_leaf 23 30]"

definition style_node :: node where
  "style_node =
     Node (Position 0 0) (Position 0 17) ''style'' ''tag'' (Some [])
       \<lparr>rstart = Position 0 0, rend = Position 0 7\<rparr>
       (Some \<lparr>rstart = Position 0 9, rend = Position 0 17\<rparr>) []"

definition style_document :: text_document where
  "style_document = \<lparr>doc_lines = [''<style>a{</style>''], eol = LF, languageId = ''html''\<rparr>"

definition style_tree :: node where
  "style_tree = example_root [style_node]"

definition template_text :: string where
  "template_text = ''<script type='' @ [CHR 0x22] @ ''text/html'' @ [CHR 0x22] @ ''><b></b></script>''"

definition template_document :: ls_document where
  "template_document = \<lparr>uri = ''file:///a.html'', ls_languageId = ''html'', version = 1,
     content = template_text\<rparr>"

definition template_tree :: ls_tree where
  "template_tree =
     LSTree None 0 41 None None None
       [LSTree (Some ''script'') 0 41 (Some 25) (Some 32)
          (Some [(''type'', Some ([CHR 0x22] @ ''text/html'' @ [CHR 0x22]))]) []]"

definition template_body_tree :: ls_tree where
  "template_body_tree =
     LSTree None 0 32 None None None [LSTree (Some ''b'') 25 32 (Some 28) (Some 28) None []]"

definition example_parseHTMLDocument :: "ls_document \<Rightarrow> ls_tree" where
  "example_parseHTMLDocument d =
     (if content d = template_text then template_tree
      else if content d = replicate 25 CHR '' '' @ ''<b></b>'' then template_body_tree
      else LSTree None 0 (length (content d)) None None None [])"

definition empty_state :: ls_state where
  "empty_state = \<lparr>heap = [], parseCache = None\<rparr>"

definition template_state :: ls_state where
  "template_state =
     \<lparr>heap =
        [\<lparr>tag = None, ls_start = 0, ls_end = 41, startTagEnd = None, endTagStart = None,
          ls_attributes = None, ls_children = [1], ls_parent = None\<rparr>,
         \<lparr>tag = Some ''script'', ls_start = 0, ls_end = 41, startTagEnd = Some 25,
          endTagStart = Some 32,
          ls_attributes = Some [(''type'', Some ([CHR 0x22] @ ''text/html'' @ [CHR 0x22]))],
          ls_children = [], ls_parent = Some 0\<rparr>],
      parseCache = Some (''file:///a.html'', 1, 0)\<rparr>"


definition template_spliced_state :: ls_state where
  "template_spliced_state =
     \<lparr>heap =
        [\<lparr>tag = None, ls_start = 0, ls_end = 41, startTagEnd = None, endTagStart = None,
          ls_attributes = None, ls_children = [1], ls_parent = None\<rparr>,
         \<lparr>tag = Some ''script'', ls_start = 0, ls_end = 41, startTagEnd = Some 25,
          endTagStart = Some 32,
          ls_attributes = Some [(''type'', Some ([CHR 0x22] @ ''text/html'' @ [CHR 0x22]))],
          ls_children = [3], ls_parent = Some 0\<rparr>,
         \<lparr>tag = None, ls_start = 0, ls_end = 32, startTagEnd = None, endTagStart = None,
          ls_attributes = None, ls_children = [3], ls_parent = None\<rparr>,
         \<lparr>tag = Some ''b'', ls_start = 25, ls_end = 32, startTagEnd = Some 28,
          endTagStart = Some 28, ls_attributes = None, ls_children = [], ls_parent = Some 1\<rparr>],
      parseCache = Some (''file:///a.html'', 1, 0)\<rparr>"

definition brace_document :: text_document where
  "brace_document = css_document [''a{b}c'']"

definition nested_document :: text_document where
  "nested_document = scss_document [''a{b{c}d'']"

definition nested_rule_document :: text_document where
  "nested_rule_document = scss_document [''a{b{c}d}'']"

definition line_comment_document :: text_document where
  "line_comment_document = scss_document [''a // }'', ''b }'']"

definition block_comment_document :: text_document where
  "block_comment_document = css_document [''a /* } */ b }'']"



definition nested_css_document :: text_document where
  "nested_css_document = css_document [''.a{b{c}d'']"

definition nested_scss_document :: text_document where
  "nested_scss_document = scss_document [''.a{b{c}d'']"

definition css_comment_document :: text_document where
  "css_comment_document = css_document [''a // }'', ''b }'']"

section \<open>The sibling-range collector on three adjacent siblings\<close>

lemmas position_simps =
  Position_def isBefore_def isBeforeOrEqual_def isAfter_def isAfterOrEqual_def isEqual_def










section \<open>Correctness of the node locator\<close>

lemma contains_within:
  "within n c \<Longrightarrow> containsPosition incl pos c \<Longrightarrow> containsPosition incl pos n"
  by (auto simp: within_def containsPosition_def position_simps split: if_splits)

lemma ends_before_excludes:
  "ends_before incl n m \<Longrightarrow> containsPosition incl pos n \<Longrightarrow> \<not> containsPosition incl pos m"
  by (auto simp: ends_before_def containsPosition_def position_simps split: if_splits)

lemma siblings_apart_filter:
  "siblings_apart incl ns \<Longrightarrow> length (filter (containsPosition incl pos) ns) \<le> 1"
proof (induction ns)
  case Nil
  then show ?case by simp
next
  case (Cons n ns)
  show ?case
  proof (cases "containsPosition incl pos n")
    case True
    then have "\<forall>m\<in>set ns. \<not> containsPosition incl pos m"
      using Cons.prems ends_before_excludes by auto
    then have "filter (containsPosition incl pos) ns = []" by (simp add: filter_empty_conv)
    then show ?thesis using True by simp
  next
    case False
    then show ?thesis using Cons by simp
  qed
qed

lemma well_formed_unambiguous: "well_formed incl n \<Longrightarrow> unambiguous incl pos n"
proof (induction incl n rule: well_formed.induct)
  case (1 incl s e nm ty at op cl cs)
  then show ?case using siblings_apart_filter [of incl cs pos] by simp
qed

lemma well_formed_nested: "well_formed w n \<Longrightarrow> nested_at incl pos n"
proof (induction w n rule: well_formed.induct)
  case (1 w s e nm ty at op cl cs)
  have "containsPosition incl pos (Node s e nm ty at op cl cs)"
    if "c \<in> set cs" "containsPosition incl pos c" for c
    using that "1.prems" contains_within [of "Node s e nm ty at op cl cs" c incl pos]
    by (simp add: within_def)
  then show ?case using 1 by simp
qed

lemma well_formed_tree_locatable:
  assumes "well_formed_tree w root"
  shows "(w = incl \<or> unambiguous incl pos root) \<longrightarrow> locatable incl pos root"
proof
  assume h: "w = incl \<or> unambiguous incl pos root"
  have wf: "siblings_apart w (children root)" "\<forall>n\<in>set (children root). well_formed w n"
    using assms by (simp_all add: well_formed_tree_def well_formed_forest_def)
  have u: "unambiguous incl pos root"
  proof (cases "w = incl")
    case True
    then show ?thesis
      using wf siblings_apart_filter [of incl "children root" pos] well_formed_unambiguous
      by (cases root) simp
  next
    case False
    then show ?thesis using h by simp
  qed
  then have "length (filter (containsPosition incl pos) (children root)) \<le> 1
             \<and> (\<forall>c\<in>set (children root). unambiguous incl pos c)"
    by (cases root) simp
  then show "locatable incl pos root"
    using wf(2) well_formed_nested by (auto simp: locatable_def locatable_forest_def)
qed

lemma filter_unique:
  "length (filter P ns) \<le> 1 \<Longrightarrow> j < length ns \<Longrightarrow> k < length ns \<Longrightarrow>
   P (ns ! j) \<Longrightarrow> P (ns ! k) \<Longrightarrow> j = k"
proof (induction ns arbitrary: j k)
  case Nil
  then show ?case by simp
next
  case (Cons n ns)
  show ?case
  proof (cases "P n")
    case True
    then have "filter P ns = []" using Cons.prems(1) by simp
    then have none: "\<forall>m\<in>set ns. \<not> P m" by (simp add: filter_empty_conv)
    have "j = 0" using none Cons.prems(2,4) by (cases j) auto
    moreover have "k = 0" using none Cons.prems(3,5) by (cases k) auto
    ultimately show ?thesis by simp
  next
    case False
    then obtain j' k' where jk: "j = Suc j'" "k = Suc k'"
      using Cons.prems(4,5) by (cases j; cases k) auto
    then show ?thesis using Cons.IH [of j' k'] Cons.prems False by simp
  qed
qed

lemma locatable_forest_children:
  "unambiguous incl pos n \<Longrightarrow> nested_at incl pos n \<Longrightarrow> locatable_forest incl pos (children n)"
  by (cases n) (simp add: locatable_forest_def)

lemma locatable_forest_tail:
  "locatable_forest incl pos (n # ns) \<Longrightarrow> locatable_forest incl pos ns"
  by (auto simp: locatable_forest_def split: if_splits)

lemma nested_at_child:
  "nested_at incl pos n \<Longrightarrow> c \<in> set (children n) \<Longrightarrow>
   nested_at incl pos c \<and> (containsPosition incl pos c \<longrightarrow> containsPosition incl pos n)"
  by (cases n) simp

lemma contains_nested:
  "nested_at incl pos n \<Longrightarrow> node_at n q = Some m \<Longrightarrow> containsPosition incl pos m
   \<Longrightarrow> containsPosition incl pos n"
proof (induction q arbitrary: n)
  case Nil
  then show ?case by simp
next
  case (Cons k q)
  from Cons.prems(2) have k: "k < length (children n)" and at: "node_at (children n ! k) q = Some m"
    by (auto split: if_splits)
  have mem: "children n ! k \<in> set (children n)" using k by simp
  note c = nested_at_child [OF Cons.prems(1) mem]
  then have "containsPosition incl pos (children n ! k)"
    using Cons.IH at Cons.prems(3) by blast
  then show ?case using c by blast
qed

lemma getNode_loop_none:
  "\<forall>n\<in>set ns. \<not> containsPosition incl pos n \<Longrightarrow>
   getNode_loop pos incl pp i ns found = found"
  by (induction ns arbitrary: i) simp_all

lemma forest_top_contains:
  assumes "locatable_forest incl pos ns" and "forest_at ns (j # q) = Some m"
    and "containsPosition incl pos m"
  shows "j < length ns \<and> node_at (ns ! j) q = Some m \<and> containsPosition incl pos (ns ! j)"
proof -
  from assms(2) have j: "j < length ns" and at: "node_at (ns ! j) q = Some m"
    by (auto simp: forest_at_def split: if_splits)
  have "nested_at incl pos (ns ! j)"
    using assms(1) j by (simp add: locatable_forest_def)
  then have "containsPosition incl pos (ns ! j)"
    using contains_nested at assms(3) by blast
  with j at show ?thesis by simp
qed

lemma forest_at_children:
  "node_at n (k # q) = Some m \<Longrightarrow> forest_at (children n) (k # q) = Some m"
  by (auto simp: forest_at_def split: if_splits)

lemma getNode_loop_some:
  assumes "locatable_forest incl pos ns" and "j < length ns"
    and "containsPosition incl pos (ns ! j)"
  shows "\<exists>r. getNode_loop pos incl pp i ns found = Some (pp @ (i + j) # r)
            \<and> (\<exists>m. node_at (ns ! j) r = Some m \<and> containsPosition incl pos m)
            \<and> (\<forall>q m. forest_at ns q = Some m \<and> containsPosition incl pos m
                  \<longrightarrow> prefix q (j # r))"
  using assms
proof (induction pos incl pp i ns found arbitrary: j rule: getNode_loop.induct)
  case (1 pos incl pp i foundNode)
  then show ?case by simp
next
  case (2 pos incl pp i n ns foundNode)
  note wf = \<open>locatable_forest incl pos (n # ns)\<close>
  have apart: "length (filter (containsPosition incl pos) (n # ns)) \<le> 1"
    using wf by (simp add: locatable_forest_def)
  show ?case
  proof (cases "containsPosition incl pos n")
    case True
    have j0: "j = 0"
      using filter_unique [OF apart "2.prems"(2) _ "2.prems"(3), of 0] True by simp
    have wfn: "unambiguous incl pos n" "nested_at incl pos n"
      using wf by (simp_all add: locatable_forest_def)
    have wfc: "locatable_forest incl pos (children n)"
      using wfn by (rule locatable_forest_children)
    have top: "\<And>q m. forest_at (n # ns) q = Some m \<Longrightarrow> containsPosition incl pos m
                 \<Longrightarrow> \<exists>q2. q = 0 # q2 \<and> node_at n q2 = Some m"
    proof -
      fix q m assume q: "forest_at (n # ns) q = Some m" and c: "containsPosition incl pos m"
      then obtain j2 q2 where q2: "q = j2 # q2" by (cases q) (auto simp: forest_at_def)
      from forest_top_contains [OF wf q [unfolded q2] c]
      have a: "j2 < length (n # ns)" and b: "node_at ((n # ns) ! j2) q2 = Some m"
        and d: "containsPosition incl pos ((n # ns) ! j2)" by auto
      have "j2 = 0"
        using filter_unique [OF apart a _ d, of 0] True by simp
      with q2 b show "\<exists>q2. q = 0 # q2 \<and> node_at n q2 = Some m" by simp
    qed
    show ?thesis
    proof (cases "\<exists>k<length (children n). containsPosition incl pos (children n ! k)")
      case ex: True
      then obtain k where k: "k < length (children n)"
        and ck: "containsPosition incl pos (children n ! k)" by blast
      from "2.IH"(1) [OF True wfc k ck]
      obtain r where r1: "getNode_loop pos incl (pp @ [i]) 0 (children n) (Some (pp @ [i]))
                            = Some ((pp @ [i]) @ (0 + k) # r)"
        and r2: "\<exists>m. node_at (children n ! k) r = Some m \<and> containsPosition incl pos m"
        and r3: "\<forall>q m. forest_at (children n) q = Some m \<and> containsPosition incl pos m
                   \<longrightarrow> prefix q (k # r)"
        by blast
      have A: "getNode_loop pos incl pp i (n # ns) foundNode = Some (pp @ (i + j) # (k # r))"
        using True r1 j0 by simp
      have B: "\<exists>m. node_at ((n # ns) ! j) (k # r) = Some m \<and> containsPosition incl pos m"
        using r2 k j0 by simp
      have C: "\<forall>q m. forest_at (n # ns) q = Some m \<and> containsPosition incl pos m
                 \<longrightarrow> prefix q (j # k # r)"
      proof (intro allI impI)
        fix q m assume h: "forest_at (n # ns) q = Some m \<and> containsPosition incl pos m"
        then obtain q2 where q2: "q = 0 # q2" and at: "node_at n q2 = Some m"
          using top by blast
        show "prefix q (j # k # r)"
        proof (cases q2)
          case Nil
          with q2 j0 show ?thesis by simp
        next
          case (Cons k2 q3)
          then have "forest_at (children n) q2 = Some m"
            using at forest_at_children by blast
          then have "prefix q2 (k # r)" using r3 h by blast
          with q2 j0 show ?thesis by simp
        qed
      qed
      from A B C show ?thesis by blast
    next
      case nex: False
      then have "\<forall>c\<in>set (children n). \<not> containsPosition incl pos c"
        by (metis in_set_conv_nth)
      then have A: "getNode_loop pos incl pp i (n # ns) foundNode = Some (pp @ (i + j) # [])"
        using True j0 getNode_loop_none by simp
      have B: "\<exists>m. node_at ((n # ns) ! j) [] = Some m \<and> containsPosition incl pos m"
        using True j0 by simp
      have C: "\<forall>q m. forest_at (n # ns) q = Some m \<and> containsPosition incl pos m
                 \<longrightarrow> prefix q (j # [])"
      proof (intro allI impI)
        fix q m assume h: "forest_at (n # ns) q = Some m \<and> containsPosition incl pos m"
        then obtain q2 where q2: "q = 0 # q2" and at: "node_at n q2 = Some m"
          using top by blast
        show "prefix q (j # [])"
        proof (cases q2)
          case Nil
          with q2 j0 show ?thesis by simp
        next
          case (Cons k2 q3)
          then have "forest_at (children n) (k2 # q3) = Some m"
            using at forest_at_children by blast
          from forest_top_contains [OF wfc this] h nex show ?thesis by blast
        qed
      qed
      from A B C show ?thesis by blast
    qed
  next
    case False
    then obtain j' where j': "j = Suc j'"
      using "2.prems"(3) by (cases j) auto
    have wfns: "locatable_forest incl pos ns" using wf by (rule locatable_forest_tail)
    have lj: "j' < length ns" and cj: "containsPosition incl pos (ns ! j')"
      using "2.prems"(2,3) j' by auto
    from "2.IH"(2) [OF False wfns lj cj]
    obtain r where r1: "getNode_loop pos incl pp (Suc i) ns foundNode = Some (pp @ (Suc i + j') # r)"
      and r2: "\<exists>m. node_at (ns ! j') r = Some m \<and> containsPosition incl pos m"
      and r3: "\<forall>q m. forest_at ns q = Some m \<and> containsPosition incl pos m
                 \<longrightarrow> prefix q (j' # r)"
      by blast
    have A: "getNode_loop pos incl pp i (n # ns) foundNode = Some (pp @ (i + j) # r)"
      using False r1 j' by simp
    have B: "\<exists>m. node_at ((n # ns) ! j) r = Some m \<and> containsPosition incl pos m"
      using r2 j' by simp
    have C: "\<forall>q m. forest_at (n # ns) q = Some m \<and> containsPosition incl pos m
               \<longrightarrow> prefix q (j # r)"
    proof (intro allI impI)
      fix q m assume h: "forest_at (n # ns) q = Some m \<and> containsPosition incl pos m"
      then obtain j2 q2 where q2: "q = j2 # q2" by (cases q) (auto simp: forest_at_def)
      from forest_top_contains [OF wf] h q2
      have a: "j2 < length (n # ns)" and b: "node_at ((n # ns) ! j2) q2 = Some m"
        and d: "containsPosition incl pos ((n # ns) ! j2)" by auto
      from d False obtain j3 where j3: "j2 = Suc j3" by (cases j2) auto
      have "forest_at ns (j3 # q2) = Some m"
        using a b j3 by (simp add: forest_at_def)
      then have "prefix (j3 # q2) (j' # r)" using r3 h by blast
      then show "prefix q (j # r)" using q2 j3 j' by simp
    qed
    from A B C show ?thesis by blast
  qed
qed

lemma node_at_forest_at:
  "q \<noteq> [] \<Longrightarrow> node_at root q = forest_at (children root) q"
  by (cases q) (simp_all add: forest_at_def)

lemma getNode_locatable:
  assumes "locatable incl pos root"
  shows "case getNode (Some root) pos incl of
           None \<Rightarrow> (\<forall>q m. q \<noteq> [] \<and> node_at root q = Some m \<longrightarrow> \<not> containsPosition incl pos m)
         | Some p \<Rightarrow> p \<noteq> [] \<and> (\<exists>n. node_at root p = Some n \<and> containsPosition incl pos n)
             \<and> (\<forall>q m. q \<noteq> [] \<and> node_at root q = Some m \<and> containsPosition incl pos m
                   \<longrightarrow> prefix q p \<and> length q \<le> length p)"
proof (cases "\<exists>j<length (children root). containsPosition incl pos (children root ! j)")
  case True
  then obtain j where j: "j < length (children root)"
    and cj: "containsPosition incl pos (children root ! j)" by blast
  from getNode_loop_some [OF assms [unfolded locatable_def] j cj, of "[]" 0 None]
  obtain r where r1: "getNode (Some root) pos incl = Some (j # r)"
    and r2: "\<exists>m. node_at (children root ! j) r = Some m \<and> containsPosition incl pos m"
    and r3: "\<forall>q m. forest_at (children root) q = Some m \<and> containsPosition incl pos m
               \<longrightarrow> prefix q (j # r)"
    by (auto simp: getNode_def)
  have "\<forall>q m. q \<noteq> [] \<and> node_at root q = Some m \<and> containsPosition incl pos m
          \<longrightarrow> prefix q (j # r) \<and> length q \<le> length (j # r)"
    using r3 node_at_forest_at prefix_length_le by metis
  then show ?thesis using r1 r2 j by simp
next
  case False
  then have none: "\<forall>c\<in>set (children root). \<not> containsPosition incl pos c"
    by (metis in_set_conv_nth)
  then have res: "getNode (Some root) pos incl = None"
    by (simp add: getNode_def getNode_loop_none)
  have "\<forall>q m. q \<noteq> [] \<and> node_at root q = Some m \<longrightarrow> \<not> containsPosition incl pos m"
  proof (intro allI impI)
    fix q m assume h: "q \<noteq> [] \<and> node_at root q = Some m"
    then obtain j q2 where q: "q = j # q2" by (cases q) auto
    show "\<not> containsPosition incl pos m"
    proof
      assume c: "containsPosition incl pos m"
      have "forest_at (children root) (j # q2) = Some m"
        using h q node_at_forest_at by metis
      from forest_top_contains [OF assms [unfolded locatable_def] this c] False
      show False by blast
    qed
  qed
  with res show ?thesis by simp
qed

lemma getNode_no_match:
  assumes "\<forall>q m. q \<noteq> [] \<and> node_at root q = Some m \<longrightarrow> \<not> containsPosition incl pos m"
  shows "getNode (Some root) pos incl = None"
proof -
  have "\<forall>c\<in>set (children root). \<not> containsPosition incl pos c"
  proof
    fix c assume "c \<in> set (children root)"
    then obtain j where "j < length (children root)" and "children root ! j = c"
      by (metis in_set_conv_nth)
    then have "node_at root [j] = Some c" by simp
    then show "\<not> containsPosition incl pos c" using assms by blast
  qed
  then show ?thesis by (simp add: getNode_def getNode_loop_none)
qed

text \<open>
  Claim C1, as stated: for every tree and position the locator returns the deepest node
  whose span contains the position. With the boundary included and two siblings that meet
  at the position, the locator settles on the first sibling and never looks into the
  second: here the first sibling [10,20] is returned for position 20, although the child
  [20,25] of the second sibling [20,30] contains the position too and lies deeper. The tree
  satisfies the containment invariant of the data model.
\<close>

theorem getNode_deepest_counterexample:
  "getNode (Some touching_siblings) (Position 0 20) True = Some [0]
   \<and> node_at touching_siblings [1, 0] = Some (example_leaf 20 25)
   \<and> containsPosition True (Position 0 20) (example_leaf 20 25)
   \<and> length [0::nat] < length [1, 0::nat]
   \<and> well_formed_tree False touching_siblings"
  by (simp add: getNode_def touching_siblings_def example_root_def example_leaf_def
      example_parent_def containsPosition_def well_formed_tree_def well_formed_forest_def
      ends_before_def position_simps)

text \<open>
  Claim C1, amended. Containment is strict (start before the position and end after it)
  when \<^verbatim>\<open>includeNodeBoundary\<close> is false and includes equality with either boundary
  when it is true. The locator returns nothing when the root is missing, when the root has
  no children, and when no node contains the position. For every tree and every position
  such that, among the children of any one node, at most one contains the position, and
  such that a node below the top level that contains the position lies in a parent that
  contains it, the locator returns the deepest node whose span contains the position: the
  returned node contains it, every node that contains it is the returned node or one of its
  ancestors and so is at most as deep, and nothing is returned only if no node contains
  the position. A tree in which children lie within their parent's span and siblings are in
  order without overlap meets the condition at every position when the boundary is
  excluded, and at every position where no two siblings both contain the position when it
  is included: only the positions on a boundary that two siblings share are left out.
\<close>

theorem getNode_deepest:
  "containsPosition False pos n = (isBefore (nstart n) pos \<and> isBefore pos (nend n))
   \<and> containsPosition True pos n = (isBeforeOrEqual (nstart n) pos \<and> isBeforeOrEqual pos (nend n))
   \<and> getNode None pos incl = None
   \<and> (children root = [] \<longrightarrow> getNode (Some root) pos incl = None)
   \<and> ((\<forall>q m. q \<noteq> [] \<and> node_at root q = Some m \<longrightarrow> \<not> containsPosition incl pos m)
        \<longrightarrow> getNode (Some root) pos incl = None)
   \<and> (locatable incl pos root \<longrightarrow>
        (case getNode (Some root) pos incl of
           None \<Rightarrow> (\<forall>q m. q \<noteq> [] \<and> node_at root q = Some m \<longrightarrow> \<not> containsPosition incl pos m)
         | Some p \<Rightarrow> p \<noteq> [] \<and> (\<exists>n. node_at root p = Some n \<and> containsPosition incl pos n)
             \<and> (\<forall>q m. q \<noteq> [] \<and> node_at root q = Some m \<and> containsPosition incl pos m
                   \<longrightarrow> prefix q p \<and> length q \<le> length p)))
   \<and> (well_formed_tree incl root \<longrightarrow> locatable incl pos root)
   \<and> (well_formed_tree False root \<and> unambiguous incl pos root \<longrightarrow> locatable incl pos root)"
proof -
  have a: "containsPosition False pos n = (isBefore (nstart n) pos \<and> isBefore pos (nend n))"
    by (auto simp: containsPosition_def position_simps)
  have b: "containsPosition True pos n
             = (isBeforeOrEqual (nstart n) pos \<and> isBeforeOrEqual pos (nend n))"
    by (auto simp: containsPosition_def position_simps)
  have c: "getNode None pos incl = None" by (simp add: getNode_def)
  have d: "children root = [] \<longrightarrow> getNode (Some root) pos incl = None"
    by (simp add: getNode_def)
  have e: "well_formed_tree incl root \<longrightarrow> locatable incl pos root"
    using well_formed_tree_locatable [of incl root incl pos] by blast
  have f: "well_formed_tree False root \<and> unambiguous incl pos root \<longrightarrow> locatable incl pos root"
    using well_formed_tree_locatable [of False root incl pos] by blast
  from a b c d e f getNode_no_match getNode_locatable show ?thesis by blast
qed

theorem getNode_deepest_witness:
  "locatable True (Position 0 25) adjacent_example
   \<and> \<not> well_formed_tree True adjacent_example
   \<and> well_formed_tree False adjacent_example
   \<and> getNode (Some adjacent_example) (Position 0 25) True = Some [1, 0]
   \<and> node_at adjacent_example [1, 0] = Some (example_leaf 22 25)
   \<and> containsPosition True (Position 0 25) (example_leaf 22 25)
   \<and> locatable False (Position 0 13) nested_example
   \<and> getNode (Some nested_example) (Position 0 13) False = Some [0, 0]
   \<and> node_at nested_example [0, 0] = Some (example_leaf 12 15)
   \<and> containsPosition False (Position 0 13) (example_leaf 12 15)
   \<and> getNode (Some (example_root [])) (Position 0 13) False = None"
  using getNode_deepest [where pos = "Position 0 25" and n = "example_leaf 22 25"
      and incl = True and root = adjacent_example]
    getNode_deepest [where pos = "Position 0 13" and n = "example_leaf 12 15"
      and incl = False and root = nested_example]
    getNode_deepest [where pos = "Position 0 13" and n = "example_leaf 12 15"
      and incl = False and root = "example_root []"]
  by (simp add: getNode_def nested_example_def adjacent_example_def example_root_def
      example_leaf_def example_parent_def containsPosition_def well_formed_tree_def
      well_formed_forest_def ends_before_def locatable_def locatable_forest_def position_simps)

lemma getNode_loop_contains:
  "getNode_loop pos incl pp i ns found = Some p \<Longrightarrow>
   found = Some p \<or>
   (\<exists>j r m. p = pp @ (i + j) # r \<and> j < length ns \<and> node_at (ns ! j) r = Some m
      \<and> containsPosition incl pos m)"
proof (induction pos incl pp i ns found rule: getNode_loop.induct)
  case (1 pos incl pp i foundNode)
  then show ?case by simp
next
  case (2 pos incl pp i n ns foundNode)
  show ?case
  proof (cases "containsPosition incl pos n")
    case True
    then have "getNode_loop pos incl (pp @ [i]) 0 (children n) (Some (pp @ [i])) = Some p"
      using "2.prems" by simp
    from "2.IH"(1) [OF True this]
    consider "p = pp @ [i]"
      | j r m where "p = (pp @ [i]) @ (0 + j) # r" "j < length (children n)"
          "node_at (children n ! j) r = Some m" "containsPosition incl pos m"
      by auto
    then show ?thesis
    proof cases
      case 1
      then have "p = pp @ (i + 0) # [] \<and> 0 < length (n # ns)
                 \<and> node_at ((n # ns) ! 0) [] = Some n \<and> containsPosition incl pos n"
        using True by simp
      then show ?thesis by blast
    next
      case (2 j r m)
      then have "p = pp @ (i + 0) # (j # r) \<and> 0 < length (n # ns)
                 \<and> node_at ((n # ns) ! 0) (j # r) = Some m \<and> containsPosition incl pos m"
        by simp
      then show ?thesis by blast
    qed
  next
    case False
    then have "getNode_loop pos incl pp (Suc i) ns foundNode = Some p"
      using "2.prems" by simp
    from "2.IH"(2) [OF False this]
    consider "foundNode = Some p"
      | j r m where "p = pp @ (Suc i + j) # r" "j < length ns"
          "node_at (ns ! j) r = Some m" "containsPosition incl pos m"
      by auto
    then show ?thesis
    proof cases
      case 1
      then show ?thesis by simp
    next
      case (2 j r m)
      then have "p = pp @ (i + Suc j) # r \<and> Suc j < length (n # ns)
                 \<and> node_at ((n # ns) ! Suc j) r = Some m \<and> containsPosition incl pos m"
        by simp
      then show ?thesis by blast
    qed
  qed
qed

lemma getNode_contains:
  assumes "getNode (Some tree) pos incl = Some p"
  shows "\<exists>m. node_at tree p = Some m \<and> containsPosition incl pos m"
proof -
  from assms have "getNode_loop pos incl [] 0 (children tree) None = Some p"
    by (simp add: getNode_def)
  from getNode_loop_contains [OF this]
  obtain j r m where "p = j # r" "j < length (children tree)"
    "node_at (children tree ! j) r = Some m" "containsPosition incl pos m"
    by auto
  then show ?thesis by simp
qed

text \<open>
  Claim C8: in \<^verbatim>\<open>getHtmlNode\<close>, when the located node is a script tag with a type
  attribute from the allow-list and the position lies strictly after the end of the open
  tag and strictly before the start of the close tag, the body (the window from the end of
  the open tag to the start of the close tag) is parsed as markup and the locator runs on
  the result at the same position. A node found there is returned in place of the script
  node, and it contains the position; when none is found or the parse throws, the script
  node is returned.
\<close>

theorem getHtmlNode_template_script:
  assumes "getNode (Some tree) position incl = Some p"
    and "node_at tree p = Some script"
    and "nname script = ''script''"
    and "nattributes script = Some attrs"
    and "(''type'', mime) \<in> set attrs"
    and "mime \<in> set allowedMimeTypesInScriptTag"
    and "nclose script = Some close_token"
    and "isAfter position (rend (nopen script))"
    and "isBefore position (rstart close_token)"
    and "buffer = DocumentStreamReader document (Some (rend (nopen script)))
           (Some \<lparr>rstart = rend (nopen script), rend = rstart close_token\<rparr>)"
  shows "getHtmlNode parse document (Some tree) position incl =
           (case parse buffer of
              Inl e \<Rightarrow> Some (tree, p)
            | Inr scriptInnerNodes \<Rightarrow>
                (case getNode (Some scriptInnerNodes) position incl of
                   None \<Rightarrow> Some (tree, p)
                 | Some q \<Rightarrow> Some (scriptInnerNodes, q)))
         \<and> (\<forall>inner q. parse buffer = Inr inner \<and> getNode (Some inner) position incl = Some q
               \<longrightarrow> (\<exists>m. node_at inner q = Some m \<and> containsPosition incl position m))"
proof -
  have ts: "isTemplateScript script"
    using assms(3-6)
    by (auto simp: isTemplateScript_def list_ex_iff intro!: bexI [where x = "(''type'', mime)"])
  have "\<not> isBefore (rstart close_token) (rend (nopen script))"
    using assms(8,9) by (auto simp: position_simps split: if_splits)
  then have rg: "Range (rend (nopen script)) (rstart close_token)
                   = \<lparr>rstart = rend (nopen script), rend = rstart close_token\<rparr>"
    by (simp add: Range_def)
  have "getHtmlNode parse document (Some tree) position incl =
           (case parse buffer of
              Inl e \<Rightarrow> Some (tree, p)
            | Inr scriptInnerNodes \<Rightarrow>
                (case getNode (Some scriptInnerNodes) position incl of
                   None \<Rightarrow> Some (tree, p)
                 | Some q \<Rightarrow> Some (scriptInnerNodes, q)))"
    using assms(1,2,7,8,9,10) ts rg
    by (simp add: getHtmlNode_def split: sum.splits option.splits)
  then show ?thesis using getNode_contains by blast
qed

theorem getHtmlNode_template_script_witness:
  "getHtmlNode (\<lambda>s. Inr script_body_tree) script_document (Some script_tree) (Position 0 24) False
     = Some (script_body_tree, [0])
   \<and> getNode (Some script_tree) (Position 0 24) False = Some [0]
   \<and> getHtmlNode (\<lambda>s. Inl ParseFailure) script_document (Some script_tree) (Position 0 24) False
     = Some (script_tree, [0])"
proof -
  have a: "getNode (Some script_tree) (Position 0 24) False = Some [0]"
    by (simp add: getNode_def script_tree_def script_node_def example_root_def
        containsPosition_def position_simps)
  have b: "node_at script_tree [0] = Some script_node"
    by (simp add: script_tree_def example_root_def)
  have c: "getNode (Some script_body_tree) (Position 0 24) False = Some [0]"
    by (simp add: getNode_def script_body_tree_def example_leaf_def example_root_def
        containsPosition_def position_simps)
  have d1: "nname script_node = ''script''"
    and d2: "nattributes script_node = Some [(''type'', ''text/html'')]"
    and d3: "nclose script_node = Some \<lparr>rstart = Position 0 30, rend = Position 0 39\<rparr>"
    by (simp_all add: script_node_def)
  have d4: "isAfter (Position 0 24) (rend (nopen script_node))"
    by (simp add: script_node_def position_simps)
  have d5: "isBefore (Position 0 24) (rstart \<lparr>rstart = Position 0 30, rend = Position 0 39\<rparr>)"
    by (simp add: position_simps)
  have d6: "''text/html'' \<in> set allowedMimeTypesInScriptTag"
    by (simp add: allowedMimeTypesInScriptTag_def)
  have d7: "(''type'', ''text/html'') \<in> set [(''type'', ''text/html'')]"
    by simp
  note t = getHtmlNode_template_script [OF a b d1 d2 d7 d6 d3 d4 d5 refl]
  show ?thesis
    using t [where parse = "\<lambda>s. Inr script_body_tree" and document = script_document]
      t [where parse = "\<lambda>s. Inl ParseFailure" and document = script_document] a c
    by simp
qed

section \<open>Parse failures\<close>

lemma getCssPropertyFromDocument_throws:
  assumes "\<not> isStyleSheet (languageId document)"
    and "parse (DocumentStreamReader document None None) = Inr rootNode"
    and "getNode (Some rootNode) position True = Some p"
    and "node_at rootNode p = Some htmlNode"
    and "nname htmlNode = ''style''"
    and "isBefore (rend (nopen htmlNode)) position"
    and "nclose htmlNode = Some close_token"
    and "isAfter (rstart close_token) position"
    and "parseStylesheet (DocumentStreamReader document (Some (nstart htmlNode))
           (Some (Range (nstart htmlNode) (nend htmlNode)))) = Inl e"
  shows "getCssPropertyFromDocument parse parseStylesheet document position = Inl e"
  using assms by (simp add: getCssPropertyFromDocument_def parseDocument_def)

lemma getEmbeddedCssNodeIfAny_throws:
  assumes "nname currentNode = ''style''"
    and "nclose currentNode = Some close_token"
    and "isBefore (rend (nopen currentNode)) position"
    and "isAfter (rstart close_token) position"
    and "parseStylesheet (DocumentStreamReader document (Some (rend (nopen currentNode)))
           (Some (Range (rend (nopen currentNode)) (rstart close_token)))) = Inl e"
  shows "getEmbeddedCssNodeIfAny parseStylesheet document (Some currentNode) position = Inl e"
proof -
  have "range_contains (Range (rend (nopen currentNode)) (rstart close_token)) position"
    using assms(3,4) by (auto simp: range_contains_def Range_def position_simps split: if_splits)
  then show ?thesis
    using assms by (simp add: getEmbeddedCssNodeIfAny_def getInnerRange_def)
qed

text \<open>
  Claim C7: no parse exception leaves an exported operation. \<^verbatim>\<open>parseDocument\<close>
  catches, as the third equation shows, but \<^verbatim>\<open>getCssPropertyFromDocument\<close> and
  \<^verbatim>\<open>getEmbeddedCssNodeIfAny\<close> call the stylesheet parser on the body of a style tag
  outside any \<^verbatim>\<open>try\<close>: for the document \<^verbatim>\<open><style>a{</style>\<close>, the position
  inside the style body and a stylesheet parser that throws, the exception is the outcome
  of both.
\<close>

theorem parse_exception_propagates:
  "getCssPropertyFromDocument (\<lambda>s. Inr style_tree) (\<lambda>s. Inl ParseFailure) style_document
     (Position 0 8) = Inl ParseFailure
   \<and> getEmbeddedCssNodeIfAny (\<lambda>s. Inl ParseFailure) style_document (Some style_node)
     (Position 0 8) = Inl ParseFailure
   \<and> parseDocument (\<lambda>s. Inl ParseFailure) (\<lambda>s. Inl ParseFailure) style_document False
     = (None, None)"
proof -
  have a: "getNode (Some style_tree) (Position 0 8) True = Some [0]"
    by (simp add: getNode_def style_tree_def style_node_def example_root_def
        containsPosition_def position_simps)
  have b: "node_at style_tree [0] = Some style_node"
    by (simp add: style_tree_def example_root_def)
  have c: "\<not> isStyleSheet (languageId style_document)"
    by (simp add: isStyleSheet_def style_document_def)
  have d: "nname style_node = ''style''"
    "nclose style_node = Some \<lparr>rstart = Position 0 9, rend = Position 0 17\<rparr>"
    by (simp_all add: style_node_def)
  have e: "isBefore (rend (nopen style_node)) (Position 0 8)"
    "isAfter (rstart \<lparr>rstart = Position 0 9, rend = Position 0 17\<rparr>) (Position 0 8)"
    by (simp_all add: style_node_def position_simps)
  have 1: "getCssPropertyFromDocument (\<lambda>s. Inr style_tree) (\<lambda>s. Inl ParseFailure) style_document
     (Position 0 8) = Inl ParseFailure"
    by (rule getCssPropertyFromDocument_throws [OF c refl a b d(1) e(1) d(2) e(2) refl])
  have 2: "getEmbeddedCssNodeIfAny (\<lambda>s. Inl ParseFailure) style_document (Some style_node)
     (Position 0 8) = Inl ParseFailure"
    by (rule getEmbeddedCssNodeIfAny_throws [OF d(1) d(2) e(1) e(2) refl])
  have 3: "parseDocument (\<lambda>s. Inl ParseFailure) (\<lambda>s. Inl ParseFailure) style_document False
     = (None, None)"
    by (simp add: parseDocument_def)
  from 1 2 3 show ?thesis by simp
qed

section \<open>The heap of language-service nodes\<close>

lemma alloc_props:
  "alloc_tree par t h = (n, h') \<Longrightarrow>
     n = length h \<and> length h < length h' \<and> (\<forall>i<length h. h' ! i = h ! i)
     \<and> (\<forall>i. length h \<le> i \<and> i < length h' \<longrightarrow>
           (\<forall>c\<in>set (ls_children (h' ! i)). length h \<le> c \<and> c < length h'))"
  "alloc_forest par ts h = (ids, h') \<Longrightarrow>
     length h \<le> length h' \<and> (\<forall>i<length h. h' ! i = h ! i)
     \<and> (\<forall>c\<in>set ids. length h \<le> c \<and> c < length h')
     \<and> (\<forall>i. length h \<le> i \<and> i < length h' \<longrightarrow>
           (\<forall>c\<in>set (ls_children (h' ! i)). length h \<le> c \<and> c < length h'))"
proof (induction par t h and par ts h arbitrary: n h' and ids h' rule: alloc_tree_alloc_forest.induct)
  case (1 par tg s e ste ets attrs cs h)
  define nd where "nd = \<lparr>tag = tg, ls_start = s, ls_end = e, startTagEnd = ste, endTagStart = ets,
                     ls_attributes = attrs, ls_children = [], ls_parent = par\<rparr>"
  obtain ids h2 where f: "alloc_forest (Some (length h)) cs (h @ [nd]) = (ids, h2)"
    by (cases "alloc_forest (Some (length h)) cs (h @ [nd])")
  have "alloc_tree par (LSTree tg s e ste ets attrs cs) h
          = (length h, h2[length h := (h2 ! length h)\<lparr>ls_children := ids\<rparr>])"
    using f [unfolded nd_def] by (simp add: Let_def)
  with "1.prems" have n: "n = length h"
    and h': "h' = h2[length h := (h2 ! length h)\<lparr>ls_children := ids\<rparr>]"
    by simp_all
  note IH = "1.IH" [OF refl refl f [unfolded nd_def], folded nd_def]
  have a: "Suc (length h) \<le> length h2" using IH by simp
  have b: "\<And>i. i < length h \<Longrightarrow> h2 ! i = h ! i"
  proof -
    fix i assume i: "i < length h"
    then have "i < length (h @ [nd])" by simp
    then have "h2 ! i = (h @ [nd]) ! i" using IH by blast
    then show "h2 ! i = h ! i" using i by (simp add: nth_append)
  qed
  have c: "\<And>c. c \<in> set ids \<Longrightarrow> Suc (length h) \<le> c \<and> c < length h2"
    using IH by simp
  have d: "\<And>i c. Suc (length h) \<le> i \<Longrightarrow> i < length h2 \<Longrightarrow> c \<in> set (ls_children (h2 ! i))
             \<Longrightarrow> Suc (length h) \<le> c \<and> c < length h2"
  proof -
    fix i c assume "Suc (length h) \<le> i" "i < length h2" "c \<in> set (ls_children (h2 ! i))"
    then have "length (h @ [nd]) \<le> i \<and> i < length h2" by simp
    then have "\<forall>c\<in>set (ls_children (h2 ! i)). length (h @ [nd]) \<le> c \<and> c < length h2"
      using IH by blast
    then show "Suc (length h) \<le> c \<and> c < length h2"
      using \<open>c \<in> set (ls_children (h2 ! i))\<close> by simp
  qed
  have lh': "length h' = length h2" using h' by simp
  have l: "length h < length h'" using a lh' by simp
  have old: "\<forall>i<length h. h' ! i = h ! i"
    using b h' by simp
  have new: "\<forall>i. length h \<le> i \<and> i < length h' \<longrightarrow>
           (\<forall>c\<in>set (ls_children (h' ! i)). length h \<le> c \<and> c < length h')"
  proof (intro allI impI ballI)
    fix i c assume i: "length h \<le> i \<and> i < length h'" and cc: "c \<in> set (ls_children (h' ! i))"
    show "length h \<le> c \<and> c < length h'"
    proof (cases "i = length h")
      case True
      then have "ls_children (h' ! i) = ids" using h' a by simp
      then have "c \<in> set ids" using cc by simp
      from c [OF this] show ?thesis using lh' by simp
    next
      case False
      then have e: "h' ! i = h2 ! i" using h' by simp
      have i1: "Suc (length h) \<le> i" and i2: "i < length h2" using i False lh' by simp_all
      have "c \<in> set (ls_children (h2 ! i))" using cc e by simp
      from d [OF i1 i2 this] show ?thesis using lh' by simp
    qed
  qed
  from n l old new show ?case by blast
next
  case (2 par h)
  then show ?case by simp
next
  case (3 par t ts h)
  obtain i h1 where t: "alloc_tree par t h = (i, h1)" by (cases "alloc_tree par t h")
  obtain ids' h2 where f: "alloc_forest par ts h1 = (ids', h2)"
    by (cases "alloc_forest par ts h1")
  from "3.prems" t f have ids: "ids = i # ids'" and h': "h' = h2" by simp_all
  note IH1 = "3.IH"(1) [OF t]
  note IH2 = "3.IH"(2) [OF refl t [symmetric] f]
  have a1: "i = length h" and a2: "length h < length h1" using IH1 by simp_all
  have a3: "\<And>j. j < length h \<Longrightarrow> h1 ! j = h ! j" using IH1 by simp
  have a4: "\<And>j c. length h \<le> j \<Longrightarrow> j < length h1 \<Longrightarrow> c \<in> set (ls_children (h1 ! j))
             \<Longrightarrow> length h \<le> c \<and> c < length h1"
    using IH1 by blast
  have b1: "length h1 \<le> length h2" using IH2 by simp
  have b2: "\<And>j. j < length h1 \<Longrightarrow> h2 ! j = h1 ! j" using IH2 by simp
  have b3: "\<And>c. c \<in> set ids' \<Longrightarrow> length h1 \<le> c \<and> c < length h2" using IH2 by simp
  have b4: "\<And>j c. length h1 \<le> j \<Longrightarrow> j < length h2 \<Longrightarrow> c \<in> set (ls_children (h2 ! j))
             \<Longrightarrow> length h1 \<le> c \<and> c < length h2"
    using IH2 by blast
  have new: "\<forall>j. length h \<le> j \<and> j < length h2 \<longrightarrow>
           (\<forall>c\<in>set (ls_children (h2 ! j)). length h \<le> c \<and> c < length h2)"
  proof (intro allI impI ballI)
    fix j c assume j: "length h \<le> j \<and> j < length h2" and cc: "c \<in> set (ls_children (h2 ! j))"
    show "length h \<le> c \<and> c < length h2"
    proof (cases "j < length h1")
      case True
      then have "c \<in> set (ls_children (h1 ! j))" using b2 cc by simp
      from a4 [OF _ True this] j show ?thesis using b1 by simp
    next
      case False
      then have "length h1 \<le> j" by simp
      from b4 [OF this _ cc] j show ?thesis using a2 by simp
    qed
  qed
  have e1: "\<forall>c\<in>set ids. length h \<le> c \<and> c < length h2"
  proof
    fix c assume "c \<in> set ids"
    then consider "c = i" | "c \<in> set ids'" using ids by auto
    then show "length h \<le> c \<and> c < length h2"
    proof cases
      case 1
      then show ?thesis using a1 a2 b1 by simp
    next
      case 2
      from b3 [OF this] show ?thesis using a2 by simp
    qed
  qed
  have e2: "\<forall>j<length h. h2 ! j = h ! j" using a3 b2 a2 by simp
  have e3: "length h \<le> length h2" using a2 b1 by simp
  from e1 e2 e3 new h' show ?case by blast
qed

lemma findFirst_loop_bounds:
  "low \<le> high \<Longrightarrow> low \<le> findFirst_loop a p low high \<and> findFirst_loop a p low high \<le> high"
proof (induction a p low high rule: findFirst_loop.induct)
  case (1 array p low high)
  show ?case
  proof (cases "low < high")
    case True
    define mid where "mid = (low + high) div 2"
    have m: "low \<le> mid" "mid < high" using True by (simp_all add: mid_def)
    show ?thesis
    proof (cases "mid < length array \<and> p (array ! mid)")
      case c: True
      have e: "findFirst_loop array p low high = findFirst_loop array p low mid"
        using True c by (subst findFirst_loop.simps) (simp add: mid_def Let_def)
      from "1.IH"(1) [OF True mid_def c] m e show ?thesis by simp
    next
      case c: False
      have e: "findFirst_loop array p low high = findFirst_loop array p (mid + 1) high"
        using True c by (subst findFirst_loop.simps) (auto simp: mid_def Let_def)
      from "1.IH"(2) [OF True mid_def c] m e show ?thesis by simp
    qed
  next
    case False
    then have "findFirst_loop array p low high = low"
      by (subst findFirst_loop.simps) simp
    then show ?thesis using "1.prems" by simp
  qed
qed

lemma findFirst_le: "findFirst a p \<le> length a"
  using findFirst_loop_bounds [of 0 "length a" a p] by (simp add: findFirst_def)

lemma findNodeAt_region:
  assumes "findNodeAt h offset n = Some m"
  shows "k \<le> n \<longrightarrow> (\<forall>i. k \<le> i \<and> i < length h \<longrightarrow> (\<forall>c\<in>set (ls_children (h ! i)). k \<le> c))
         \<longrightarrow> k \<le> m \<and> m < length h"
proof (rule findNodeAt.raw_induct [OF _ assms])
  fix f :: "heap \<Rightarrow> int \<Rightarrow> nat \<Rightarrow> nat option" and h offset n m
  assume IH: "\<And>h offset n m. f h offset n = Some m \<Longrightarrow>
          k \<le> n \<longrightarrow> (\<forall>i. k \<le> i \<and> i < length h \<longrightarrow> (\<forall>c\<in>set (ls_children (h ! i)). k \<le> c))
          \<longrightarrow> k \<le> m \<and> m < length h"
  assume body: "(if n < length h then
        (let cs = ls_children (h ! n);
             idx = int (findFirst cs (\<lambda>c. c < length h \<and> offset \<le> int (ls_start (h ! c)))) - 1
         in if idx \<ge> 0 then
              (let child = cs ! nat idx in
               if child < length h \<and> offset > int (ls_start (h ! child))
                  \<and> offset \<le> int (ls_end (h ! child))
               then f h offset child
               else Some n)
            else Some n)
      else None) = Some m"
  show "k \<le> n \<longrightarrow> (\<forall>i. k \<le> i \<and> i < length h \<longrightarrow> (\<forall>c\<in>set (ls_children (h ! i)). k \<le> c))
         \<longrightarrow> k \<le> m \<and> m < length h"
  proof (intro impI)
    assume kn: "k \<le> n"
      and reg: "\<forall>i. k \<le> i \<and> i < length h \<longrightarrow> (\<forall>c\<in>set (ls_children (h ! i)). k \<le> c)"
    from body have n: "n < length h" by (simp split: if_splits)
    define cs where "cs = ls_children (h ! n)"
    define fi where "fi = findFirst cs (\<lambda>c. c < length h \<and> offset \<le> int (ls_start (h ! c)))"
    define child where "child = cs ! (fi - 1)"
    have fle: "fi \<le> length cs" unfolding fi_def by (rule findFirst_le)
    show "k \<le> m \<and> m < length h"
    proof (cases "0 < fi \<and> child < length h \<and> offset > int (ls_start (h ! child))
                   \<and> offset \<le> int (ls_end (h ! child))")
      case True
      then have "f h offset child = Some m"
        using body n
        by (simp add: Let_def cs_def [symmetric] fi_def [symmetric] child_def nat_diff_distrib')
      moreover from True have "0 < fi" by simp
      with fle have "fi - 1 < length cs" by arith
      then have "child \<in> set cs" unfolding child_def by (rule nth_mem)
      then have "k \<le> child" using reg kn n cs_def by blast
      ultimately show ?thesis using IH reg by blast
    next
      case False
      then have "m = n"
        using body n
        by (auto simp: Let_def cs_def [symmetric] fi_def [symmetric] child_def nat_diff_distrib'
            split: if_splits)
      then show ?thesis using kn n by simp
    qed
  qed
qed

lemma findNodeAt_valid: "findNodeAt h offset n = Some m \<Longrightarrow> m < length h"
  using findNodeAt_region [of h offset n m 0] by simp

lemma parseMarkupDocument_fresh:
  assumes "parseMarkupDocument p st d False = (root, st1)"
  shows "root = length (heap st) \<and> parseCache st1 = parseCache st
         \<and> length (heap st) < length (heap st1)
         \<and> (\<forall>i<length (heap st). heap st1 ! i = heap st ! i)
         \<and> (\<forall>i. length (heap st) \<le> i \<and> i < length (heap st1) \<longrightarrow>
               (\<forall>c\<in>set (ls_children (heap st1 ! i)). length (heap st) \<le> c))"
proof -
  obtain n h where a: "alloc_tree None (p d) (heap st) = (n, h)"
    by (cases "alloc_tree None (p d) (heap st)")
  have "parseMarkupDocument p st d False = (n, st\<lparr>heap := h\<rparr>)"
    unfolding parseMarkupDocument_def by (simp add: a)
  with assms have r: "root = n" and s: "st1 = st\<lparr>heap := h\<rparr>" by simp_all
  have hs: "heap st1 = h" and cs: "parseCache st1 = parseCache st" using s by simp_all
  note b = alloc_props(1) [OF a]
  have 1: "root = length (heap st)" using b r by simp
  have 2: "length (heap st) < length (heap st1)" using b hs by simp
  have 3: "\<forall>i<length (heap st). heap st1 ! i = heap st ! i" using b hs by simp
  have 4: "\<forall>i. length (heap st) \<le> i \<and> i < length (heap st1) \<longrightarrow>
               (\<forall>c\<in>set (ls_children (heap st1 ! i)). length (heap st) \<le> c)"
    unfolding hs using b by blast
  from 1 cs 2 3 4 show ?thesis by blast
qed


lemma parseMarkupDocument_cached:
  assumes "parseMarkupDocument p st d True = (root, st1)"
  shows "length (heap st) \<le> length (heap st1)
         \<and> (\<forall>i<length (heap st). heap st1 ! i = heap st ! i)
         \<and> parseCache st1 = Some (uri d, version d, root)"
proof -
  obtain n h where a: "alloc_tree None (p d) (heap st) = (n, h)"
    by (cases "alloc_tree None (p d) (heap st)")
  note b = alloc_props(1) [OF a]
  from b have "length (heap st) < length h" by blast
  then have "length (heap st) \<le> length h" by simp
  moreover from b have "\<forall>i<length (heap st). h ! i = heap st ! i" by blast
  ultimately have miss: "length (heap st) \<le> length h \<and> (\<forall>i<length (heap st). h ! i = heap st ! i)"
    by blast
  show ?thesis
  proof (cases "parseCache st")
    case None
    have "parseMarkupDocument p st d True
            = (n, st\<lparr>heap := h, parseCache := Some (uri d, version d, n)\<rparr>)"
      unfolding parseMarkupDocument_def by (simp add: a None)
    with assms have "root = n" "st1 = st\<lparr>heap := h, parseCache := Some (uri d, version d, n)\<rparr>"
      by auto
    with miss show ?thesis by simp
  next
    case (Some e)
    obtain key ver cached where e: "e = (key, ver, cached)" by (cases e)
    show ?thesis
    proof (cases "key = uri d \<and> ver = version d")
      case True
      have "parseMarkupDocument p st d True = (cached, st)"
        unfolding parseMarkupDocument_def using True by (simp add: Some e)
      with assms have "root = cached" "st1 = st" by simp_all
      with Some e True show ?thesis by simp
    next
      case False
      have "parseMarkupDocument p st d True
              = (n, st\<lparr>heap := h, parseCache := Some (uri d, version d, n)\<rparr>)"
        unfolding parseMarkupDocument_def using False by (auto simp: a Some e)
      with assms have "root = n" "st1 = st\<lparr>heap := h, parseCache := Some (uri d, version d, n)\<rparr>"
        by auto
      with miss show ?thesis by simp
    qed
  qed
qed

lemma splice_length [simp]: "length (splice c b h) = length h"
  by (simp add: splice_def Let_def)

lemma splice_other: "i \<noteq> c \<Longrightarrow> i \<noteq> b \<Longrightarrow> splice c b h ! i = h ! i"
  by (simp add: splice_def Let_def)

lemma splice_outer:
  "c < length h \<Longrightarrow> b < length h \<Longrightarrow> c \<noteq> b \<Longrightarrow>
   splice c b h ! c = (h ! c)\<lparr>ls_children := ls_children (h ! c) @ [b]\<rparr>"
  by (simp add: splice_def Let_def)

lemma splice_inner:
  "c < length h \<Longrightarrow> b < length h \<Longrightarrow> c \<noteq> b \<Longrightarrow>
   splice c b h ! b = (h ! b)\<lparr>ls_parent := Some c\<rparr>"
  by (simp add: splice_def Let_def)

lemma getHtmlNodeLSInternal_unfold:
  assumes "parseMarkupDocument p st d (\<not> b) = (root, st1)"
    and "findNodeAt (heap st1) offset root = Some cur"
  shows "getHtmlNodeLSInternal p st d offset b =
     (if tag (heap st1 ! cur) = None \<or> tag (heap st1 ! cur) = Some [] then Some (None, st1)
      else if isNodeTemplateScriptLS (heap st1 ! cur) \<and> insideScriptBody (heap st1 ! cur) offset
      then Option.bind (getHtmlNodeLSInternal p st1 (scriptBodyDocument d (heap st1 ! cur)) offset True)
             (attach cur)
      else Some (Some cur, st1))"
  using assms
  by (subst getHtmlNodeLSInternal.simps) (simp add: Let_def)

lemma getHtmlNodeLSInternal_frame:
  assumes "getHtmlNodeLSInternal p st d offset b = Some y"
  shows "length (heap st) \<le> length (heap (snd y))
     \<and> (\<forall>id. fst y = Some id \<longrightarrow> id < length (heap (snd y)))
     \<and> (b \<longrightarrow> parseCache (snd y) = parseCache st
            \<and> (\<forall>i<length (heap st). heap (snd y) ! i = heap st ! i)
            \<and> (\<forall>id. fst y = Some id \<longrightarrow> length (heap st) \<le> id))"
proof (rule getHtmlNodeLSInternal.raw_induct [OF _ assms])
  fix f :: "(ls_document \<Rightarrow> ls_tree) \<Rightarrow> ls_state \<Rightarrow> ls_document \<Rightarrow> int \<Rightarrow> bool
            \<Rightarrow> (nat option \<times> ls_state) option"
    and p st d offset b y
  assume IH: "\<And>p st d offset b y. f p st d offset b = Some y \<Longrightarrow>
     length (heap st) \<le> length (heap (snd y))
     \<and> (\<forall>id. fst y = Some id \<longrightarrow> id < length (heap (snd y)))
     \<and> (b \<longrightarrow> parseCache (snd y) = parseCache st
            \<and> (\<forall>i<length (heap st). heap (snd y) ! i = heap st ! i)
            \<and> (\<forall>id. fst y = Some id \<longrightarrow> length (heap st) \<le> id))"
  assume body: "(let useCache = \<not> b;
          parsed = parseMarkupDocument p st d useCache;
          st1 = snd parsed
      in case findNodeAt (heap st1) offset (fst parsed) of
           None \<Rightarrow> None
         | Some currentNode \<Rightarrow>
             (let node = heap st1 ! currentNode in
              if tag node = None \<or> tag node = Some [] then Some (None, st1)
              else if isNodeTemplateScriptLS node \<and> insideScriptBody node offset
              then
                Option.bind
                  (f p st1 (scriptBodyDocument d node) offset True)
                  (attach currentNode)
              else Some (Some currentNode, st1))) = Some y"
  obtain root st1 where pm: "parseMarkupDocument p st d (\<not> b) = (root, st1)"
    by (cases "parseMarkupDocument p st d (\<not> b)")
  from body [unfolded Let_def pm fst_conv snd_conv]
  obtain cur where cur: "findNodeAt (heap st1) offset root = Some cur"
    by (cases "findNodeAt (heap st1) offset root") simp_all
  have curv: "cur < length (heap st1)" using cur by (rule findNodeAt_valid)
  have grow: "length (heap st) \<le> length (heap st1)"
  proof (cases b)
    case True
    with pm have "parseMarkupDocument p st d False = (root, st1)" by simp
    from parseMarkupDocument_fresh [OF this] show ?thesis by simp
  next
    case False
    with pm have "parseMarkupDocument p st d True = (root, st1)" by simp
    from parseMarkupDocument_cached [OF this] show ?thesis by simp
  qed
  have inner: "b \<Longrightarrow> parseCache st1 = parseCache st
            \<and> (\<forall>i<length (heap st). heap st1 ! i = heap st ! i) \<and> length (heap st) \<le> cur"
  proof -
    assume b
    with pm have pm': "parseMarkupDocument p st d False = (root, st1)" by simp
    note fr = parseMarkupDocument_fresh [OF pm']
    have "length (heap st) \<le> cur"
      using findNodeAt_region [OF cur, of "length (heap st)"] fr by blast
    with fr show ?thesis by blast
  qed
  define node where "node = heap st1 ! cur"
  from body [unfolded Let_def pm fst_conv snd_conv cur option.case]
  have body': "(if tag node = None \<or> tag node = Some [] then Some (None, st1)
      else if isNodeTemplateScriptLS node \<and> insideScriptBody node offset
      then Option.bind (f p st1 (scriptBodyDocument d node) offset True) (attach cur)
      else Some (Some cur, st1)) = Some y"
    unfolding node_def .
  consider (notag) "y = (None, st1)" | (plain) "y = (Some cur, st1)"
    | (rec) y2 where "f p st1 (scriptBodyDocument d node) offset True = Some y2"
        "attach cur y2 = Some y"
  proof (cases "tag node = None \<or> tag node = Some []")
    case True
    with body' have "y = (None, st1)" by auto
    then show ?thesis by (rule that(1))
  next
    case nt: False
    show ?thesis
    proof (cases "isNodeTemplateScriptLS node \<and> insideScriptBody node offset")
      case True
      with body' nt have "Option.bind (f p st1 (scriptBodyDocument d node) offset True) (attach cur) = Some y"
        by simp
      then obtain y2 where "f p st1 (scriptBodyDocument d node) offset True = Some y2"
        "attach cur y2 = Some y"
        by (auto simp: bind_eq_Some_conv)
      then show ?thesis by (rule that(3))
    next
      case False
      with body' nt have "y = (Some cur, st1)" by auto
      then show ?thesis by (rule that(2))
    qed
  qed
  then show "length (heap st) \<le> length (heap (snd y))
     \<and> (\<forall>id. fst y = Some id \<longrightarrow> id < length (heap (snd y)))
     \<and> (b \<longrightarrow> parseCache (snd y) = parseCache st
            \<and> (\<forall>i<length (heap st). heap (snd y) ! i = heap st ! i)
            \<and> (\<forall>id. fst y = Some id \<longrightarrow> length (heap st) \<le> id))"
  proof cases
    case notag
    then have "fst y = None" "snd y = st1" by simp_all
    then show ?thesis using grow inner by simp
  next
    case plain
    then have "fst y = Some cur" "snd y = st1" by simp_all
    then show ?thesis using grow inner curv by simp
  next
    case (rec y2)
    obtain r2 st2 where y2: "y2 = (r2, st2)" by (cases y2)
    note ih = IH [OF rec(1), unfolded y2 fst_conv snd_conv, simplified]
    have g2: "length (heap st1) \<le> length (heap st2)" using ih by blast
    have v2: "\<And>id. r2 = Some id \<Longrightarrow> id < length (heap st2) \<and> length (heap st1) \<le> id"
      using ih by blast
    have c2: "parseCache st2 = parseCache st1" using ih by blast
    have o2: "\<And>i. i < length (heap st1) \<Longrightarrow> heap st2 ! i = heap st1 ! i"
      using ih by blast
    show ?thesis
    proof (cases r2)
      case None
      with rec(2) y2 have "y = (Some cur, st2)" by (simp add: attach_def)
      then have y: "fst y = Some cur" "snd y = st2" by simp_all
      have "\<And>i. b \<Longrightarrow> i < length (heap st) \<Longrightarrow> heap st2 ! i = heap st ! i"
        using o2 inner grow by (metis less_le_trans)
      then show ?thesis unfolding y using grow g2 curv c2 inner by auto
    next
      case (Some bn)
      with rec(2) y2 have y: "y = (Some bn, st2\<lparr>heap := splice cur bn (heap st2)\<rparr>)"
        by (simp add: attach_def)
      from v2 [OF Some] have bn: "bn < length (heap st2)" "length (heap st1) \<le> bn" by simp_all
      have "\<And>i. b \<Longrightarrow> i < length (heap st) \<Longrightarrow> splice cur bn (heap st2) ! i = heap st ! i"
      proof -
        fix i assume b and i: "i < length (heap st)"
        from inner [OF \<open>b\<close>] have "length (heap st) \<le> cur"
          and old: "heap st1 ! i = heap st ! i" using i by auto
        then have "i \<noteq> cur" "i \<noteq> bn" using i bn grow by auto
        then have "splice cur bn (heap st2) ! i = heap st2 ! i" by (rule splice_other)
        also have "\<dots> = heap st1 ! i" using o2 i grow by simp
        finally show "splice cur bn (heap st2) ! i = heap st ! i" using old by simp
      qed
      moreover have "fst y = Some bn" "heap (snd y) = splice cur bn (heap st2)"
        "parseCache (snd y) = parseCache st2" using y by simp_all
      ultimately show ?thesis using grow g2 bn c2 inner by auto
    qed
  qed
qed

section \<open>Nodes without a tag\<close>

text \<open>
  Claim C10: if the node that the language service finds at the offset has no tag (the
  root of the tree, for a position in top-level text), \<^verbatim>\<open>getHtmlNodeLS\<close> returns nothing:
  neither that node nor a node around it. The offset is the one the function looks up, the
  position's offset moved by one at an angle bracket when the boundary is included.
\<close>

theorem getHtmlNodeLS_no_tag:
  assumes "parseMarkupDocument parseHTMLDocument st document True = (root, st1)"
    and "findNodeAt (heap st1) (selectionStartOffset document position includeNodeBoundary) root
           = Some currentNode"
    and "tag (heap st1 ! currentNode) = None \<or> tag (heap st1 ! currentNode) = Some []"
  shows "getHtmlNodeLS parseHTMLDocument st document position includeNodeBoundary
           = Some (None, st1)"
proof -
  have "parseMarkupDocument parseHTMLDocument st document (\<not> False) = (root, st1)"
    using assms(1) by simp
  from getHtmlNodeLSInternal_unfold [OF this assms(2)] assms(3)
  show ?thesis by (simp add: getHtmlNodeLS_def)
qed

theorem getHtmlNodeLS_no_tag_witness:
  "getHtmlNodeLS example_parseHTMLDocument empty_state template_document (Position 0 0) False
     = Some (None, template_state)"
proof -
  have a: "parseMarkupDocument example_parseHTMLDocument empty_state template_document True
             = (0, template_state)"
    by code_simp
  have b: "findNodeAt (heap template_state)
             (selectionStartOffset template_document (Position 0 0) False) 0 = Some 0"
    by code_simp
  have c: "tag (heap template_state ! 0) = None \<or> tag (heap template_state ! 0) = Some []"
    by code_simp
  from getHtmlNodeLS_no_tag [OF a b c] show ?thesis .
qed


section \<open>Template scripts on the language service's tree\<close>






section \<open>The frame of the splice\<close>

text \<open>
  Claim C3, as stated: the splice never mutates a node of a tree stored in the parser
  cache. Here the cache holds the tree of the document (root 0, whose only child is the
  script node 1, which has no children); the call at offset 26, inside the body of the
  script, ends with the same cache entry and node 1 having the new child 3.
\<close>

theorem splice_frame_counterexample:
  "parseMarkupDocument example_parseHTMLDocument template_state template_document True
     = (0, template_state)
   \<and> parseCache template_state = Some (''file:///a.html'', 1, 0)
   \<and> ls_children (heap template_state ! 0) = [1]
   \<and> ls_children (heap template_state ! 1) = []
   \<and> getHtmlNodeLSInternal example_parseHTMLDocument template_state template_document 26 False
       = Some (Some 3, template_spliced_state)
   \<and> parseCache template_spliced_state = Some (''file:///a.html'', 1, 0)
   \<and> ls_children (heap template_spliced_state ! 0) = [1]
   \<and> ls_children (heap template_spliced_state ! 1) = [3]"
  by code_simp

text \<open>
  Claim C3, amended: for every document and offset, the splice of a top-level call mutates
  the outer node, found at the offset in the tree of the document (the tree that the
  parser cache holds at that moment), by appending the inner node to its children, and the
  inner node, a node created during the call for a synthetic document, by setting its
  parent. Every other node that existed when the tree of the document was obtained is
  unchanged, and the cache entry still holds the tree of the document: no synthetic tree
  is cached.
\<close>

theorem splice_frame:
  assumes "parseMarkupDocument parseHTMLDocument st document True = (root, st1)"
    and "getHtmlNodeLSInternal parseHTMLDocument st document offset False = Some (r, st')"
  shows "parseCache st1 = Some (uri document, version document, root)
         \<and> parseCache st' = parseCache st1
         \<and> (\<exists>currentNode. findNodeAt (heap st1) offset root = Some currentNode
               \<and> currentNode < length (heap st1)
               \<and> (\<forall>i<length (heap st1). i \<noteq> currentNode \<longrightarrow> heap st' ! i = heap st1 ! i)
               \<and> (heap st' ! currentNode = heap st1 ! currentNode
                    \<or> (\<exists>inner. r = Some inner \<and> length (heap st1) \<le> inner
                          \<and> inner < length (heap st')
                          \<and> heap st' ! currentNode
                              = (heap st1 ! currentNode)
                                  \<lparr>ls_children := ls_children (heap st1 ! currentNode) @ [inner]\<rparr>
                          \<and> ls_parent (heap st' ! inner) = Some currentNode)))"
proof -
  have c1: "parseCache st1 = Some (uri document, version document, root)"
    using parseMarkupDocument_cached [OF assms(1)] by blast
  have pm: "parseMarkupDocument parseHTMLDocument st document (\<not> False) = (root, st1)"
    using assms(1) by simp
  obtain cur where cur: "findNodeAt (heap st1) offset root = Some cur"
  proof (cases "findNodeAt (heap st1) offset root")
    case None
    then have "getHtmlNodeLSInternal parseHTMLDocument st document offset False = None"
      using assms(1) by (subst getHtmlNodeLSInternal.simps) (simp add: Let_def)
    with assms(2) show ?thesis by simp
  next
    case (Some c)
    then show ?thesis by (rule that)
  qed
  have cv: "cur < length (heap st1)" using cur by (rule findNodeAt_valid)
  define node where "node = heap st1 ! cur"
  note u = getHtmlNodeLSInternal_unfold [OF pm cur, folded node_def]
  have main: "parseCache st' = parseCache st1
       \<and> (\<forall>i<length (heap st1). i \<noteq> cur \<longrightarrow> heap st' ! i = heap st1 ! i)
       \<and> (heap st' ! cur = heap st1 ! cur
            \<or> (\<exists>inner. r = Some inner \<and> length (heap st1) \<le> inner \<and> inner < length (heap st')
                  \<and> heap st' ! cur = (heap st1 ! cur)
                        \<lparr>ls_children := ls_children (heap st1 ! cur) @ [inner]\<rparr>
                  \<and> ls_parent (heap st' ! inner) = Some cur))"
  proof (cases "(tag node = None \<or> tag node = Some [])
                 \<or> \<not> (isNodeTemplateScriptLS node \<and> insideScriptBody node offset)")
    case True
    then have "st' = st1" using u assms(2) by (auto split: if_splits)
    then show ?thesis by simp
  next
    case False
    then have "Option.bind (getHtmlNodeLSInternal parseHTMLDocument st1
                 (scriptBodyDocument document node) offset True) (attach cur) = Some (r, st')"
      using u assms(2) by (auto split: if_splits)
    then obtain y2 where rec: "getHtmlNodeLSInternal parseHTMLDocument st1
                 (scriptBodyDocument document node) offset True = Some y2"
      and at: "attach cur y2 = Some (r, st')"
      by (auto simp: bind_eq_Some_conv)
    obtain r2 st2 where y2: "y2 = (r2, st2)" by (cases y2)
    note fr = getHtmlNodeLSInternal_frame [OF rec, unfolded y2 fst_conv snd_conv, simplified]
    have c: "parseCache st2 = parseCache st1" using fr by blast
    have g: "length (heap st1) \<le> length (heap st2)" using fr by blast
    have keep: "\<And>i. i < length (heap st1) \<Longrightarrow> heap st2 ! i = heap st1 ! i" using fr by blast
    show ?thesis
    proof (cases r2)
      case None
      with at y2 have "st' = st2" by (simp add: attach_def)
      then show ?thesis using c keep cv by simp
    next
      case (Some inner)
      with at y2 have r: "r = Some inner"
        and st': "st' = st2\<lparr>heap := splice cur inner (heap st2)\<rparr>"
        by (simp_all add: attach_def)
      have iv: "inner < length (heap st2)" and il: "length (heap st1) \<le> inner"
        using fr Some by blast+
      have ne: "cur \<noteq> inner" using cv il by simp
      have cv2: "cur < length (heap st2)" using cv g by simp
      have a: "parseCache st' = parseCache st1" using st' c by simp
      have b: "\<forall>i<length (heap st1). i \<noteq> cur \<longrightarrow> heap st' ! i = heap st1 ! i"
      proof (intro allI impI)
        fix i assume i: "i < length (heap st1)" and "i \<noteq> cur"
        moreover have "i \<noteq> inner" using i il by simp
        ultimately have "splice cur inner (heap st2) ! i = heap st2 ! i" by (simp add: splice_other)
        then show "heap st' ! i = heap st1 ! i" using keep [OF i] st' by simp
      qed
      have d: "heap st' ! cur = (heap st1 ! cur)\<lparr>ls_children := ls_children (heap st1 ! cur) @ [inner]\<rparr>"
        using splice_outer [OF cv2 iv ne] keep [OF cv] st' by simp
      have e: "ls_parent (heap st' ! inner) = Some cur"
        using splice_inner [OF cv2 iv ne] st' by simp
      have f: "inner < length (heap st')" using iv st' by simp
      from a b d e f r il show ?thesis by blast
    qed
  qed
  from c1 cur cv main show ?thesis by blast
qed

theorem splice_frame_witness:
  "parseMarkupDocument example_parseHTMLDocument template_state template_document True
     = (0, template_state)
   \<and> getHtmlNodeLSInternal example_parseHTMLDocument template_state template_document 26 False
       = Some (Some 3, template_spliced_state)
   \<and> parseCache template_spliced_state = parseCache template_state
   \<and> heap template_spliced_state ! 0 = heap template_state ! 0
   \<and> heap template_spliced_state ! 1
       = (heap template_state ! 1)\<lparr>ls_children := ls_children (heap template_state ! 1) @ [3]\<rparr>
   \<and> ls_parent (heap template_spliced_state ! 3) = Some 1"
proof -
  have a: "parseMarkupDocument example_parseHTMLDocument template_state template_document True
             = (0, template_state)"
    by code_simp
  have b: "getHtmlNodeLSInternal example_parseHTMLDocument template_state template_document 26 False
             = Some (Some 3, template_spliced_state)"
    by code_simp
  have c: "findNodeAt (heap template_state) 26 0 = Some 1"
    by code_simp
  have d: "heap template_spliced_state ! 1 \<noteq> heap template_state ! 1"
    by code_simp
  have e: "(0::nat) < length (heap template_state)"
    by code_simp
  from splice_frame [OF a b] c
  have 1: "parseCache template_spliced_state = parseCache template_state"
    and 2: "\<forall>i<length (heap template_state). i \<noteq> 1 \<longrightarrow>
              heap template_spliced_state ! i = heap template_state ! i"
    and 3: "heap template_spliced_state ! 1 = heap template_state ! 1
            \<or> (\<exists>inner. Some (3::nat) = Some inner \<and> length (heap template_state) \<le> inner
                  \<and> inner < length (heap template_spliced_state)
                  \<and> heap template_spliced_state ! 1
                      = (heap template_state ! 1)
                          \<lparr>ls_children := ls_children (heap template_state ! 1) @ [inner]\<rparr>
                  \<and> ls_parent (heap template_spliced_state ! inner) = Some 1)"
    by auto
  from 2 e have 4: "heap template_spliced_state ! 0 = heap template_state ! 0" by simp
  from 3 d have 5: "heap template_spliced_state ! 1
       = (heap template_state ! 1)\<lparr>ls_children := ls_children (heap template_state ! 1) @ [3]\<rparr>
       \<and> ls_parent (heap template_spliced_state ! 3) = Some 1"
    by auto
  from a b 1 4 5 show ?thesis by simp
qed

section \<open>The stream reader on a whole document\<close>

lemma lineCount_pos: "0 < lineCount document"
  by (simp add: lineCount_def text_lines_def)


lemma lineAt_valid:
  "l < lineCount document \<Longrightarrow> lineAt document (int l) = Inr (text_lines document ! l)"
  by (simp add: lineAt_def)

lemma lineAt_Inr:
  "lineAt document r = Inr t \<Longrightarrow> 0 \<le> r \<and> nat r < lineCount document \<and> t = text_lines document ! nat r"
  by (auto simp: lineAt_def split: if_splits)

lemma not_eof_line:
  assumes "unlimited document s" and "\<not> eof s"
  shows "line (sr_pos s) < lineCount document"
  using assms lineCount_pos [of document]
  by (auto simp: unlimited_def eof_def document_end_def position_simps split: if_splits)

lemma in_line_not_eof:
  assumes "unlimited document s" and "in_line document (sr_pos s)"
  shows "\<not> eof s"
  using assms
  by (auto simp: unlimited_def eof_def in_line_def document_end_def position_simps)

lemma eol_code:
  "charCodeAt (eol_text e) i = Some c \<Longrightarrow> c = 10 \<or> c = 13"
  by (cases e; cases i) (auto simp: charCodeAt_def eol_text_def less_Suc_eq split: if_splits)

lemma peek_unlimited:
  assumes "unlimited document s"
  shows "peek s =
     Inr (if eof s then None
          else char_code_at_pos document (text_lines document ! line (sr_pos s))
                 (character (sr_pos s)))"
proof (cases "eof s")
  case True
  then show ?thesis by (simp add: peek_def)
next
  case False
  from not_eof_line [OF assms False] assms show ?thesis
    using False by (simp add: peek_def lineAt_valid unlimited_def)
qed

lemma peek_code_in_line:
  assumes "unlimited document s" and "peek s = Inr (Some c)" and "c \<noteq> 10" and "c \<noteq> 13"
  shows "in_line document (sr_pos s) \<and>
         c = of_char (text_lines document ! line (sr_pos s) ! character (sr_pos s))"
proof -
  have ne: "\<not> eof s" using assms(1,2) by (auto simp: peek_unlimited)
  then have l: "line (sr_pos s) < lineCount document" using assms(1) by (rule not_eof_line [rotated])
  have cc: "char_code_at_pos document (text_lines document ! line (sr_pos s))
              (character (sr_pos s)) = Some c"
    using assms(1,2) ne by (simp add: peek_unlimited)
  have "character (sr_pos s) < length (text_lines document ! line (sr_pos s))"
  proof (rule ccontr)
    assume "\<not> ?thesis"
    then have "charCodeAt (eol_text (eol document))
                 (character (sr_pos s) - length (text_lines document ! line (sr_pos s))) = Some c"
      using cc by (simp add: char_code_at_pos_def)
    from eol_code [OF this] assms(3,4) show False by simp
  qed
  then show ?thesis using l cc by (simp add: in_line_def char_code_at_pos_def charCodeAt_def)
qed

lemma next_char_in_line:
  assumes "unlimited document s" and "in_line document (sr_pos s)"
  shows "\<exists>c. next_char s
           = Inr (c, s\<lparr>sr_pos := Position (line (sr_pos s)) (character (sr_pos s) + 1)\<rparr>)"
proof -
  have ne: "\<not> eof s" using assms by (rule in_line_not_eof)
  define s1 where "s1 = s\<lparr>sr_pos := Position (line (sr_pos s)) (character (sr_pos s) + 1)\<rparr>"
  have "restrict_to_eof s1 = s1"
    using assms
    by (auto simp: restrict_to_eof_def s1_def eof_def unlimited_def in_line_def document_end_def
        position_simps split: if_splits)
  then show ?thesis
    using assms ne
    by (simp add: next_char_def lineAt_valid in_line_def unlimited_def Let_def s1_def)
qed

lemma backUp_loop_result:
  "backUp_loop document row column = Inr (r, c) \<Longrightarrow> 0 \<le> row \<Longrightarrow>
   0 \<le> r \<and> 0 \<le> c \<and> r \<le> row \<and> (0 \<le> column \<longrightarrow> r = row \<and> c = column)
   \<and> (column < 0 \<longrightarrow> r < row)"
proof (induction document row column rule: backUp_loop.induct)
  case (1 document row column)
  show ?case
  proof (cases "row \<ge> 0 \<and> column < 0")
    case True
    then obtain n where n: "lineLength document (row - 1) = Inr n"
      and rec: "backUp_loop document (row - 1) (column + int n) = Inr (r, c)"
      using "1.prems"(1)
      by (subst (asm) backUp_loop.simps) (auto split: sum.splits)
    have "0 \<le> row - 1"
      using n by (auto simp: lineLength_def dest: lineAt_Inr split: sum.splits)
    from "1.IH" [OF True n rec this] True show ?thesis by auto
  next
    case False
    then have "r = row \<and> c = column"
      using "1.prems"(1) by (subst (asm) backUp_loop.simps) auto
    then show ?thesis using False "1.prems"(2) by auto
  qed
qed

lemma backUp_result:
  assumes "unlimited document s" and "backUp s 1 = Inr (code, s')"
  shows "unlimited document s' \<and> peek s' = Inr code \<and> isBefore (sr_pos s') (sr_pos s)
         \<and> line (sr_pos s') \<le> line (sr_pos s)
         \<and> (0 < character (sr_pos s) \<longrightarrow>
               sr_pos s' = Position (line (sr_pos s)) (character (sr_pos s) - 1))"
proof -
  obtain r c where l: "backUp_loop (sr_document s) (int (line (sr_pos s)))
                         (int (character (sr_pos s)) - 1) = Inr (r, c)"
    using assms(2) by (auto simp: backUp_def split: sum.splits)
  note b = backUp_loop_result [OF l]
  have rc: "0 \<le> r" "0 \<le> c" "r \<le> int (line (sr_pos s))" using b by simp_all
  define s1 where "s1 = s\<lparr>sr_pos := Position (nat r) (nat c)\<rparr>"
  have s': "s' = s1" and pk: "peek s1 = Inr code"
    using assms(2) l rc by (auto simp: backUp_def s1_def Let_def split: sum.splits)
  have u: "unlimited document s1" using assms(1) by (simp add: unlimited_def s1_def)
  have lt: "isBefore (sr_pos s1) (sr_pos s)"
  proof (cases "0 < character (sr_pos s)")
    case True
    then have "r = int (line (sr_pos s)) \<and> c = int (character (sr_pos s)) - 1" using b by simp
    then show ?thesis using True by (simp add: s1_def position_simps)
  next
    case False
    then have "r < int (line (sr_pos s))" using b by simp
    then have "nat r < line (sr_pos s)" using rc by linarith
    then show ?thesis by (simp add: s1_def position_simps)
  qed
  have le: "line (sr_pos s1) \<le> line (sr_pos s)" using rc by (simp add: s1_def Position_def)
  have ex: "0 < character (sr_pos s) \<longrightarrow>
               sr_pos s1 = Position (line (sr_pos s)) (character (sr_pos s) - 1)"
  proof
    assume "0 < character (sr_pos s)"
    then have "r = int (line (sr_pos s)) \<and> c = int (character (sr_pos s)) - 1" using b by simp
    then show "sr_pos s1 = Position (line (sr_pos s)) (character (sr_pos s) - 1)"
      by (simp add: s1_def nat_diff_distrib')
  qed
  from u pk lt le ex s' show ?thesis by simp
qed

lemma consumeLineCommentBackwards_result:
  assumes "consumeLineCommentBackwards isCSS document sc = Inr sc1"
  shows "sr_document (sc_stream sc1) = sr_document (sc_stream sc)
         \<and> sr_sof (sc_stream sc1) = sr_sof (sc_stream sc)
         \<and> sr_eof (sc_stream sc1) = sr_eof (sc_stream sc)
         \<and> startPosition sc1 = startPosition sc \<and> endPosition sc1 = endPosition sc
         \<and> openBracesToFind sc1 = openBracesToFind sc \<and> exit sc1 = exit sc
         \<and> foundSelector sc1 = foundSelector sc
         \<and> line (sr_pos (sc_stream sc1)) = line (sr_pos (sc_stream sc))
         \<and> (isCSS \<or> currentLine sc = line (sr_pos (sc_stream sc)) \<longrightarrow> sc1 = sc)
         \<and> (\<not> isCSS \<longrightarrow> currentLine sc1 = line (sr_pos (sc_stream sc)))"
  using assms
  by (auto simp: consumeLineCommentBackwards_def Let_def set_pos_def Position_def
      split: if_splits sum.splits option.splits)

lemma cutoff_fields:
  "sc_stream (cutoff position limitPosition sc) = sc_stream sc
   \<and> startPosition (cutoff position limitPosition sc) = startPosition sc
   \<and> endPosition (cutoff position limitPosition sc) = endPosition sc
   \<and> openBracesToFind (cutoff position limitPosition sc) = openBracesToFind sc
   \<and> currentLine (cutoff position limitPosition sc) = currentLine sc
   \<and> foundSelector (cutoff position limitPosition sc) = foundSelector sc
   \<and> (exit sc \<longrightarrow> exit (cutoff position limitPosition sc))"
  by (simp add: cutoff_def)

section \<open>One round of the backward scan\<close>

lemma cutoff_exit: "exit sc \<Longrightarrow> cutoff position limitPosition sc = sc"
  by (simp add: cutoff_def)

lemma backward_loop_exit:
  "exit sc \<Longrightarrow> backward_loop isCSS document position limitPosition sc = Some (Inr sc)"
  by (subst backward_loop.simps) (simp add: backward_guard_def)

lemma selector_scan_exit:
  "exit sc \<Longrightarrow> \<exists>sc'. selector_scan document sc = Some (Inr sc')
     \<and> startPosition sc' = startPosition sc \<and> endPosition sc' = endPosition sc"
  unfolding selector_scan_def
  by (subst selector_loop.simps) (simp add: selector_guard_def)

lemma backward_step_braces:
  assumes "unlimited document (sc_stream sc)"
    and "consumeLineCommentBackwards isCSS document sc = Inr sc1"
    and "backUp (sc_stream sc1) 1 = Inr (code, s2)"
    and "ahead = Position (line (sr_pos s2)) (character (sr_pos s2) + 1)"
  shows
    "(code = Some closeBrace \<and> isCSS \<longrightarrow>
        (\<exists>sc'. backward_step isCSS document position limitPosition sc = Inr sc'
           \<and> exit sc' \<and> startPosition sc' = ahead \<and> sr_pos (sc_stream sc') = ahead
           \<and> openBracesToFind sc' = openBracesToFind sc
           \<and> (backward_guard sc \<longrightarrow>
                backward_loop isCSS document position limitPosition sc = Some (Inr sc'))
           \<and> (\<exists>sc''. selector_scan document sc' = Some (Inr sc'') \<and> startPosition sc'' = ahead)))
     \<and> (code = Some closeBrace \<and> \<not> isCSS \<longrightarrow>
        (\<exists>sc'. backward_step isCSS document position limitPosition sc = Inr sc'
           \<and> openBracesToFind sc' = openBracesToFind sc + 1
           \<and> sr_pos (sc_stream sc') = sr_pos s2 \<and> startPosition sc' = startPosition sc))
     \<and> (code = Some openBrace \<longrightarrow>
        (\<exists>sc'. backward_step isCSS document position limitPosition sc = Inr sc'
           \<and> openBracesToFind sc' = openBracesToFind sc - 1
           \<and> sr_pos (sc_stream sc') = sr_pos s2 \<and> startPosition sc' = startPosition sc))"
proof -
  note c = consumeLineCommentBackwards_result [OF assms(2)]
  have u1: "unlimited document (sc_stream sc1)"
    using assms(1) c by (simp add: unlimited_def)
  note b = backUp_result [OF u1 assms(3)]
  have u2: "unlimited document s2" using b by simp
  have pk: "peek s2 = Inr code" using b by simp
  have css: "code = Some closeBrace \<and> isCSS \<longrightarrow>
        (\<exists>sc'. backward_step isCSS document position limitPosition sc = Inr sc'
           \<and> exit sc' \<and> startPosition sc' = ahead \<and> sr_pos (sc_stream sc') = ahead
           \<and> openBracesToFind sc' = openBracesToFind sc
           \<and> (backward_guard sc \<longrightarrow>
                backward_loop isCSS document position limitPosition sc = Some (Inr sc'))
           \<and> (\<exists>sc''. selector_scan document sc' = Some (Inr sc'') \<and> startPosition sc'' = ahead))"
  proof
    assume h: "code = Some closeBrace \<and> isCSS"
    then have "peek s2 = Inr (Some 125)" using pk by (simp add: closeBrace_def)
    from peek_code_in_line [OF u2 this] have il: "in_line document (sr_pos s2)" by simp
    from next_char_in_line [OF u2 il] assms(4)
    obtain c2 where nx: "next_char s2 = Inr (c2, s2\<lparr>sr_pos := ahead\<rparr>)" by auto
    define sc' where "sc' = sc1\<lparr>sc_stream := s2\<lparr>sr_pos := ahead\<rparr>, startPosition := ahead, exit := True\<rparr>"
    have sw: "backward_switch isCSS document code (sc1\<lparr>sc_stream := s2\<rparr>) = Inr sc'"
      using h nx by (simp add: backward_switch_def sc'_def closeBrace_def openBrace_def)
    have st: "backward_step isCSS document position limitPosition sc = Inr sc'"
      using assms(2,3) sw by (simp add: backward_step_def cutoff_exit sc'_def)
    have ex: "exit sc'" by (simp add: sc'_def)
    have lp: "backward_guard sc \<longrightarrow>
                backward_loop isCSS document position limitPosition sc = Some (Inr sc')"
    proof
      assume "backward_guard sc"
      then have "backward_loop isCSS document position limitPosition sc
                   = backward_loop isCSS document position limitPosition sc'"
        using st by (subst backward_loop.simps) simp
      then show "backward_loop isCSS document position limitPosition sc = Some (Inr sc')"
        using backward_loop_exit [OF ex] by simp
    qed
    from selector_scan_exit [OF ex, of document]
    obtain sc'' where "selector_scan document sc' = Some (Inr sc'')"
      "startPosition sc'' = startPosition sc'" by blast
    then have sel: "\<exists>sc''. selector_scan document sc' = Some (Inr sc'') \<and> startPosition sc'' = ahead"
      by (auto simp: sc'_def)
    have "startPosition sc' = ahead \<and> sr_pos (sc_stream sc') = ahead
           \<and> openBracesToFind sc' = openBracesToFind sc"
      using c by (simp add: sc'_def)
    with st ex lp sel show "\<exists>sc'. backward_step isCSS document position limitPosition sc = Inr sc'
           \<and> exit sc' \<and> startPosition sc' = ahead \<and> sr_pos (sc_stream sc') = ahead
           \<and> openBracesToFind sc' = openBracesToFind sc
           \<and> (backward_guard sc \<longrightarrow>
                backward_loop isCSS document position limitPosition sc = Some (Inr sc'))
           \<and> (\<exists>sc''. selector_scan document sc' = Some (Inr sc'') \<and> startPosition sc'' = ahead)"
      by blast
  qed
  have lenient: "code = Some closeBrace \<and> \<not> isCSS \<longrightarrow>
        (\<exists>sc'. backward_step isCSS document position limitPosition sc = Inr sc'
           \<and> openBracesToFind sc' = openBracesToFind sc + 1
           \<and> sr_pos (sc_stream sc') = sr_pos s2 \<and> startPosition sc' = startPosition sc)"
  proof
    assume h: "code = Some closeBrace \<and> \<not> isCSS"
    define sc3 where "sc3 = sc1\<lparr>sc_stream := s2, openBracesToFind := openBracesToFind sc1 + 1\<rparr>"
    have "backward_switch isCSS document code (sc1\<lparr>sc_stream := s2\<rparr>) = Inr sc3"
      using h by (simp add: backward_switch_def sc3_def closeBrace_def openBrace_def)
    then have "backward_step isCSS document position limitPosition sc
                 = Inr (cutoff position limitPosition sc3)"
      using assms(2,3) by (simp add: backward_step_def)
    moreover have "openBracesToFind (cutoff position limitPosition sc3) = openBracesToFind sc + 1
           \<and> sr_pos (sc_stream (cutoff position limitPosition sc3)) = sr_pos s2
           \<and> startPosition (cutoff position limitPosition sc3) = startPosition sc"
      using c by (simp add: cutoff_fields sc3_def)
    ultimately show "\<exists>sc'. backward_step isCSS document position limitPosition sc = Inr sc'
           \<and> openBracesToFind sc' = openBracesToFind sc + 1
           \<and> sr_pos (sc_stream sc') = sr_pos s2 \<and> startPosition sc' = startPosition sc"
      by blast
  qed
  have opn: "code = Some openBrace \<longrightarrow>
        (\<exists>sc'. backward_step isCSS document position limitPosition sc = Inr sc'
           \<and> openBracesToFind sc' = openBracesToFind sc - 1
           \<and> sr_pos (sc_stream sc') = sr_pos s2 \<and> startPosition sc' = startPosition sc)"
  proof
    assume h: "code = Some openBrace"
    define sc3 where "sc3 = sc1\<lparr>sc_stream := s2, openBracesToFind := openBracesToFind sc1 - 1\<rparr>"
    have "backward_switch isCSS document code (sc1\<lparr>sc_stream := s2\<rparr>) = Inr sc3"
      using h by (simp add: backward_switch_def sc3_def)
    then have "backward_step isCSS document position limitPosition sc
                 = Inr (cutoff position limitPosition sc3)"
      using assms(2,3) by (simp add: backward_step_def)
    moreover have "openBracesToFind (cutoff position limitPosition sc3) = openBracesToFind sc - 1
           \<and> sr_pos (sc_stream (cutoff position limitPosition sc3)) = sr_pos s2
           \<and> startPosition (cutoff position limitPosition sc3) = startPosition sc"
      using c by (simp add: cutoff_fields sc3_def)
    ultimately show "\<exists>sc'. backward_step isCSS document position limitPosition sc = Inr sc'
           \<and> openBracesToFind sc' = openBracesToFind sc - 1
           \<and> sr_pos (sc_stream sc') = sr_pos s2 \<and> startPosition sc' = startPosition sc"
      by blast
  qed
  from css lenient opn show ?thesis by blast
qed

section \<open>Offsets and the order of positions\<close>

lemma isBefore_iff:
  "isBefore p q \<longleftrightarrow> line p < line q \<or> (line p = line q \<and> character p < character q)"
  by (auto simp: isBefore_def)

lemma isBeforeOrEqual_iff:
  "isBeforeOrEqual p q \<longleftrightarrow> line p < line q \<or> (line p = line q \<and> character p \<le> character q)"
  by (auto simp: isBeforeOrEqual_def)

lemma isAfter_iff:
  "isAfter p q \<longleftrightarrow> line q < line p \<or> (line p = line q \<and> character q < character p)"
  by (auto simp: isAfter_def isBeforeOrEqual_def)

lemma isAfterOrEqual_iff:
  "isAfterOrEqual p q \<longleftrightarrow> line q < line p \<or> (line p = line q \<and> character q \<le> character p)"
  by (auto simp: isAfterOrEqual_def isBefore_def)

lemmas position_iffs = Position_def isBefore_iff isBeforeOrEqual_iff isAfter_iff isAfterOrEqual_iff

lemma positionAt_lines_line: "i \<le> line (positionAt_lines ls e i off)"
  by (induction ls e i off rule: positionAt_lines.induct) (auto simp: Position_def)

lemma positionAt_lines_valid:
  "ls \<noteq> [] \<Longrightarrow>
   line (positionAt_lines ls e i off) - i < length ls
   \<and> character (positionAt_lines ls e i off) \<le> length (ls ! (line (positionAt_lines ls e i off) - i))"
proof (induction ls e i off rule: positionAt_lines.induct)
  case (3 t u ts e i off)
  show ?case
  proof (cases "off < length t + e")
    case True
    then show ?thesis by (simp add: Position_def)
  next
    case False
    let ?r = "positionAt_lines (u # ts) e (Suc i) (off - (length t + e))"
    have ih: "line ?r - Suc i < length (u # ts) \<and> character ?r \<le> length ((u # ts) ! (line ?r - Suc i))"
      using 3 False by simp
    have le: "Suc i \<le> line ?r" by (rule positionAt_lines_line)
    then have "line ?r - i = Suc (line ?r - Suc i)" by simp
    then show ?thesis using ih False by simp
  qed
qed (simp_all add: Position_def)

lemma positionAt_lines_ge:
  "l < length ls \<Longrightarrow> c \<le> length (ls ! l) \<Longrightarrow>
   sum_list (map (\<lambda>t. length t + e) (take l ls)) + c \<le> off \<Longrightarrow>
   i + l < line (positionAt_lines ls e i off)
   \<or> (line (positionAt_lines ls e i off) = i + l \<and> c \<le> character (positionAt_lines ls e i off))"
proof (induction ls e i off arbitrary: l rule: positionAt_lines.induct)
  case (3 t u ts e i off)
  show ?case
  proof (cases "off < length t + e")
    case True
    then have "l = 0" using "3.prems"(3) by (cases l) auto
    then show ?thesis using True "3.prems" by (simp add: Position_def)
  next
    case False
    let ?r = "positionAt_lines (u # ts) e (Suc i) (off - (length t + e))"
    show ?thesis
    proof (cases l)
      case 0
      have "Suc i \<le> line ?r" by (rule positionAt_lines_line)
      then show ?thesis using False 0 by simp
    next
      case (Suc l')
      have "Suc i + l' < line ?r \<or> (line ?r = Suc i + l' \<and> c \<le> character ?r)"
        using "3.prems" False Suc by (intro "3.IH") auto
      then show ?thesis using False Suc by simp
    qed
  qed
qed (simp_all add: Position_def)


lemma text_lines_length: "length (text_lines document) = lineCount document"
  by (simp add: lineCount_def)

lemma positionAt_valid: "valid_position document (positionAt document o')"
  using positionAt_lines_valid [of "text_lines document" "eol_length document" 0 "nat (max 0 o')"]
    lineCount_pos [of document]
  by (auto simp: valid_position_def positionAt_def text_lines_length [symmetric]
      simp del: text_lines_length)

lemma validatePosition_valid:
  "valid_position document p \<Longrightarrow> validatePosition document p = p"
  by (simp add: valid_position_def validatePosition_def Position_def min_def)

lemma positionAt_ge:
  assumes "valid_position document p" and "int (offsetAt document p) \<le> o'"
  shows "isAfterOrEqual (positionAt document o') p"
proof -
  have "line_start document (line p) + character p \<le> nat (max 0 o')"
    using assms by (simp add: offsetAt_def validatePosition_valid Let_def)
  from positionAt_lines_ge [OF _ _ this [unfolded line_start_def], of 0] assms(1)
  show ?thesis
    by (auto simp: valid_position_def positionAt_def position_simps text_lines_length)
qed


section \<open>The forward scan ends\<close>

lemma document_end_valid: "valid_position document (document_end document)"
  using lineCount_pos [of document]
  by (simp add: valid_position_def document_end_def Position_def lineCount_def)

lemma restrict_to_eof_unlimited:
  "unlimited document s \<Longrightarrow>
   restrict_to_eof s = (if eof s then s\<lparr>sr_pos := document_end document\<rparr> else s)"
  by (simp add: restrict_to_eof_def unlimited_def document_end_def Position_def)

lemma next_char_step:
  assumes "unlimited document s" and "\<not> eof s"
  shows "\<exists>c s1. next_char s = Inr (c, s1) \<and> peek s = Inr c \<and> unlimited document s1
           \<and> later document (sr_pos s) (sr_pos s1)
           \<and> (\<forall>q. in_line document q \<and> isAfterOrEqual q (sr_pos s) \<and> isBefore q (sr_pos s1)
                  \<longrightarrow> q = sr_pos s)"
proof -
  define p where "p = sr_pos s"
  define t where "t = text_lines document ! line p"
  have l: "line p < lineCount document" using not_eof_line [OF assms] by (simp add: p_def)
  have before: "isBefore p (document_end document)"
    using assms by (auto simp: eof_def unlimited_def position_iffs p_def)
  define s0 where "s0 = (if character p < length t
                         then s\<lparr>sr_pos := Position (line p) (character p + 1)\<rparr>
                         else s\<lparr>sr_pos := Position (line p + 1) 0\<rparr>)"
  define s1 where "s1 = restrict_to_eof s0"
  have u0: "unlimited document s0" using assms(1) by (simp add: s0_def unlimited_def)
  have u1: "unlimited document s1"
    using u0 by (simp add: s1_def restrict_to_eof_unlimited) (simp add: unlimited_def)
  have nx: "next_char s = Inr (char_code_at_pos document t (character p), s1)"
    using assms l
    by (simp add: next_char_def lineAt_valid unlimited_def Let_def s1_def s0_def p_def t_def)
  have pk: "peek s = Inr (char_code_at_pos document t (character p))"
    using assms by (simp add: peek_unlimited p_def t_def)
  have p1: "sr_pos s1 = (if eof s0 then document_end document else sr_pos s0)"
    using u0 by (simp add: s1_def restrict_to_eof_unlimited)
  have lt0: "isBefore p (sr_pos s0)" by (simp add: s0_def position_iffs)
  have v0: "\<not> eof s0 \<Longrightarrow> valid_position document (sr_pos s0)"
    using not_eof_line [OF u0] l
    by (auto simp: s0_def valid_position_def Position_def t_def split: if_splits)
  have lat: "later document p (sr_pos s1)"
    using p1 lt0 v0 before document_end_valid by (auto simp: later_def)
  have le: "isBeforeOrEqual (sr_pos s1) (sr_pos s0)"
    using p1 u0 by (auto simp: eof_def unlimited_def position_iffs)
  have only: "\<forall>q. in_line document q \<and> isAfterOrEqual q p \<and> isBefore q (sr_pos s1) \<longrightarrow> q = p"
  proof (intro allI impI)
    fix q assume q: "in_line document q \<and> isAfterOrEqual q p \<and> isBefore q (sr_pos s1)"
    then have "isBefore q (sr_pos s0)" using le by (auto simp: position_iffs)
    then have "line q = line p \<and> character q = character p"
      using q by (auto simp: s0_def in_line_def position_iffs t_def split: if_splits)
    then show "q = p" by simp
  qed
  show ?thesis using nx pk u1 lat only by (simp add: p_def)
qed

lemma eat_step:
  assumes "unlimited document s"
  shows "\<exists>ok s1. eat s code = Inr (ok, s1) \<and> unlimited document s1
           \<and> (ok \<longrightarrow> peek s = Inr (Some code) \<and> later document (sr_pos s) (sr_pos s1)
                  \<and> (\<exists>c. next_char s = Inr (c, s1)))
           \<and> (\<not> ok \<longrightarrow> s1 = s \<and> peek s \<noteq> Inr (Some code))"
proof (cases "eof s")
  case True
  then have "eat s code = Inr (False, s) \<and> peek s \<noteq> Inr (Some code)"
    by (simp add: eat_def peek_def)
  then show ?thesis using assms by blast
next
  case False
  from next_char_step [OF assms False] obtain c s1 where
    "next_char s = Inr (c, s1)" "peek s = Inr c" "unlimited document s1"
    "later document (sr_pos s) (sr_pos s1)" by blast
  then have "(c = Some code \<longrightarrow> eat s code = Inr (True, s1)) \<and>
             (c \<noteq> Some code \<longrightarrow> eat s code = Inr (False, s))"
    "peek s = Inr c" "unlimited document s1" "later document (sr_pos s) (sr_pos s1)"
    "next_char s = Inr (c, s1)"
    by (simp_all add: eat_def)
  then show ?thesis using assms by (cases "c = Some code") auto
qed

lemma later_trans:
  "isBefore p q \<Longrightarrow> later document q r \<Longrightarrow> later document p r"
  by (auto simp: later_def position_iffs)

lemma later_trans_eq:
  "later document p q \<Longrightarrow> valid_position document r \<Longrightarrow> isAfterOrEqual r q \<Longrightarrow> later document p r"
  by (auto simp: later_def position_iffs)

lemma findClosingCommentAfterPosition_later:
  assumes "valid_position document p"
    and "findClosingCommentAfterPosition document p = Some q"
  shows "valid_position document q \<and> isAfterOrEqual q p"
proof -
  obtain off where q: "q = positionAt document (int (off + 2 + offsetAt document p))"
    using assms(2) by (auto simp: findClosingCommentAfterPosition_def split: option.splits)
  have "int (offsetAt document p) \<le> int (off + 2 + offsetAt document p)" by simp
  from positionAt_ge [OF assms(1) this] positionAt_valid q show ?thesis by simp
qed

lemma unlimited_set_pos: "unlimited document s \<Longrightarrow> unlimited document (s\<lparr>sr_pos := p\<rparr>)"
  by (simp add: unlimited_def)

lemma eof_beyond:
  "unlimited document s \<Longrightarrow> lineCount document \<le> line (sr_pos s) \<Longrightarrow> eof s"
  using lineCount_pos [of document]
  by (auto simp: eof_def unlimited_def document_end_def position_iffs)

lemma eof_document_end:
  "unlimited document s \<Longrightarrow> sr_pos s = document_end document \<Longrightarrow> eof s"
  by (auto simp: eof_def unlimited_def position_iffs)

lemma consumeCommentForwards_step:
  assumes "unlimited document s" and "peek s = Inr (Some slash)"
  shows "\<exists>s'. consumeCommentForwards isCSS document (document_end document) s = Inr s'
           \<and> unlimited document s' \<and> (eof s' \<or> later document (sr_pos s) (sr_pos s'))"
proof -
  from eat_step [OF assms(1), of slash] assms(2) obtain s1 where
    e1: "eat s slash = Inr (True, s1)" and u1: "unlimited document s1"
    and l1: "later document (sr_pos s) (sr_pos s1)" by auto
  from eat_step [OF u1, of slash] obtain ok2 s2 where
    e2: "eat s1 slash = Inr (ok2, s2)" and u2: "unlimited document s2"
    and l2: "ok2 \<longrightarrow> later document (sr_pos s1) (sr_pos s2)"
    and n2: "\<not> ok2 \<longrightarrow> s2 = s1" by blast
  have l12: "later document (sr_pos s) (sr_pos s2)"
    using l1 l2 n2 by (cases ok2) (auto simp: later_def position_iffs)
  show ?thesis
  proof (cases "ok2 \<and> \<not> isCSS")
    case True
    define s' where "s' = s2\<lparr>sr_pos := Position (line (sr_pos s2) + 1) 0\<rparr>"
    have r: "consumeCommentForwards isCSS document (document_end document) s = Inr s'"
      using e1 e2 True by (simp add: consumeCommentForwards_def s'_def)
    have u': "unlimited document s'" using u2 by (simp add: s'_def unlimited_def)
    have "eof s' \<or> later document (sr_pos s) (sr_pos s')"
    proof (cases "line (sr_pos s2) + 1 < lineCount document")
      case True
      then show ?thesis using l12
        by (auto simp: later_def s'_def valid_position_def position_iffs)
    next
      case False
      then have "lineCount document \<le> line (sr_pos s')" by (simp add: s'_def Position_def)
      from eof_beyond [OF u' this] have "eof s'" .
      then show ?thesis by simp
    qed
    with r u' show ?thesis by blast
  next
    case False
    from eat_step [OF u2, of star] obtain ok3 s3 where
      e3: "eat s2 star = Inr (ok3, s3)" and u3: "unlimited document s3"
      and l3: "ok3 \<longrightarrow> later document (sr_pos s2) (sr_pos s3)"
      and n3: "\<not> ok3 \<longrightarrow> s3 = s2" by blast
    have l13: "later document (sr_pos s) (sr_pos s3)"
      using l12 l3 n3 by (cases ok3) (auto simp: later_def position_iffs)
    show ?thesis
    proof (cases ok3)
      case False
      then have "consumeCommentForwards isCSS document (document_end document) s = Inr s3"
        using e1 e2 e3 \<open>\<not> (ok2 \<and> \<not> isCSS)\<close> by (auto simp: consumeCommentForwards_def)
      then show ?thesis using u3 l13 by blast
    next
      case True
      define q where "q = (case findClosingCommentAfterPosition document (sr_pos s3) of
                             Some q \<Rightarrow> q | None \<Rightarrow> document_end document)"
      have r: "consumeCommentForwards isCSS document (document_end document) s
                 = Inr (s3\<lparr>sr_pos := q\<rparr>)"
        using e1 e2 e3 True \<open>\<not> (ok2 \<and> \<not> isCSS)\<close>
        by (auto simp: consumeCommentForwards_def q_def)
      have u': "unlimited document (s3\<lparr>sr_pos := q\<rparr>)" using u3 by (rule unlimited_set_pos)
      have "eof (s3\<lparr>sr_pos := q\<rparr>) \<or> later document (sr_pos s) q"
      proof (cases "findClosingCommentAfterPosition document (sr_pos s3)")
        case None
        then have "q = document_end document" by (simp add: q_def)
        then have "eof (s3\<lparr>sr_pos := q\<rparr>)" using u' by (intro eof_document_end) simp_all
        then show ?thesis by simp
      next
        case (Some q')
        have v3: "valid_position document (sr_pos s3)" using l13 by (simp add: later_def)
        from findClosingCommentAfterPosition_later [OF v3 Some]
        have "valid_position document q' \<and> isAfterOrEqual q' (sr_pos s3)" .
        then have "later document (sr_pos s) q'" using l13 by (auto intro: later_trans_eq)
        then show ?thesis using Some by (simp add: q_def)
      qed
      with r u' show ?thesis by auto
    qed
  qed
qed

lemma forward_measure_less:
  assumes "unlimited document s" and "unlimited document s'" and "\<not> eof s"
    and "eof s' \<or> later document (sr_pos s) (sr_pos s')"
  shows "(forward_measure document s', forward_measure document s) \<in> less_than <*lex*> less_than"
proof (cases "eof s'")
  case True
  have "line (sr_pos s) < lineCount document" using assms(1,3) by (rule not_eof_line)
  then show ?thesis using True assms(3) by (simp add: forward_measure_def)
next
  case False
  have l: "line (sr_pos s) < lineCount document" using assms(1,3) by (rule not_eof_line)
  have l': "line (sr_pos s') < lineCount document" using assms(2) False by (rule not_eof_line)
  have "later document (sr_pos s) (sr_pos s')" using assms(4) False by simp
  then show ?thesis using l l' False assms(3)
    by (auto simp: forward_measure_def later_def valid_position_def position_iffs)
qed

lemma forward_round_step:
  assumes "unlimited document s"
  shows "case forward_round isCSS document (document_end document) s of
           Done s1 \<Rightarrow>
             (eof s \<and> s1 = s)
             \<or> (\<not> eof s \<and> in_line document (sr_pos s) \<and> peek s = Inr (Some closeBrace)
                \<and> s1 = s\<lparr>sr_pos := Position (line (sr_pos s)) (character (sr_pos s) + 1)\<rparr>)
         | Raised e \<Rightarrow> False
         | Again s1 \<Rightarrow>
             \<not> eof s \<and> peek s \<noteq> Inr (Some closeBrace) \<and> unlimited document s1
             \<and> (eof s1 \<or> later document (sr_pos s) (sr_pos s1))"
proof (cases "eof s")
  case True
  then show ?thesis by (simp add: forward_round_def)
next
  case False
  from eat_step [OF assms, of closeBrace] obtain ok s1 where
    e: "eat s closeBrace = Inr (ok, s1)" and u1: "unlimited document s1"
    and y: "ok \<longrightarrow> peek s = Inr (Some closeBrace) \<and> (\<exists>c. next_char s = Inr (c, s1))"
    and n: "\<not> ok \<longrightarrow> s1 = s \<and> peek s \<noteq> Inr (Some closeBrace)" by blast
  show ?thesis
  proof (cases ok)
    case True
    then have pk: "peek s = Inr (Some closeBrace)" using y by simp
    then have "peek s = Inr (Some 125)" by (simp add: closeBrace_def)
    from peek_code_in_line [OF assms this] have il: "in_line document (sr_pos s)" by simp
    from next_char_in_line [OF assms il] y True
    have "s1 = s\<lparr>sr_pos := Position (line (sr_pos s)) (character (sr_pos s) + 1)\<rparr>" by auto
    then show ?thesis using e True False il pk by (simp add: forward_round_def)
  next
    case no: False
    then have s1: "s1 = s" and pk: "peek s \<noteq> Inr (Some closeBrace)" using n by simp_all
    obtain c where c: "peek s = Inr c" using assms by (simp add: peek_unlimited)
    show ?thesis
    proof (cases "c = Some slash")
      case True
      from consumeCommentForwards_step [OF assms, of isCSS] c True obtain s2 where
        "consumeCommentForwards isCSS document (document_end document) s = Inr s2"
        "unlimited document s2" "eof s2 \<or> later document (sr_pos s) (sr_pos s2)" by auto
      then show ?thesis using e no s1 c True False pk by (simp add: forward_round_def)
    next
      case ns: False
      from next_char_step [OF assms False] obtain c1 s2 where
        "next_char s = Inr (c1, s2)" "unlimited document s2"
        "later document (sr_pos s) (sr_pos s2)" by blast
      then show ?thesis using e no s1 c ns False pk by (simp add: forward_round_def)
    qed
  qed
qed

lemma forward_loop_rule:
  assumes u: "unlimited document s" and i: "I s"
    and step: "\<And>s s1. unlimited document s \<Longrightarrow> I s \<Longrightarrow>
                forward_round isCSS document (document_end document) s = Again s1 \<Longrightarrow> I s1"
  shows "\<exists>s0 s'. forward_loop isCSS document (document_end document) s = Some (Inr s')
           \<and> unlimited document s0 \<and> I s0
           \<and> forward_round isCSS document (document_end document) s0 = Done s'"
  using u i
proof (induction s rule: wf_induct_rule
    [OF wf_inv_image [OF wf_lex_prod [OF wf_less_than wf_less_than], of "forward_measure document"]])
  case (1 s)
  note r = forward_round_step [OF "1.prems"(1), of isCSS]
  show ?case
  proof (cases "forward_round isCSS document (document_end document) s")
    case (Done s1)
    then have "forward_loop isCSS document (document_end document) s = Some (Inr s1)"
      by (subst forward_loop.simps) simp
    then show ?thesis using Done "1.prems" by blast
  next
    case (Raised e)
    then show ?thesis using r by simp
  next
    case (Again s1)
    then have a: "\<not> eof s" "unlimited document s1" "eof s1 \<or> later document (sr_pos s) (sr_pos s1)"
      using r by simp_all
    have less: "(s1, s) \<in> inv_image (less_than <*lex*> less_than) (forward_measure document)"
      using forward_measure_less [OF "1.prems"(1) a(2) a(1) a(3)] by simp
    have i1: "I s1" using step [OF "1.prems" Again] .
    from "1.IH" [OF less a(2) i1] obtain s0 s' where
      "forward_loop isCSS document (document_end document) s1 = Some (Inr s')"
      "unlimited document s0" "I s0"
      "forward_round isCSS document (document_end document) s0 = Done s'" by blast
    moreover have "forward_loop isCSS document (document_end document) s
                     = forward_loop isCSS document (document_end document) s1"
      using Again by (subst forward_loop.simps) simp
    ultimately show ?thesis by auto
  qed
qed

lemma peek_in_line:
  assumes "unlimited document s" and "in_line document (sr_pos s)"
  shows "peek s = Inr (Some (code_at document (sr_pos s)))"
  using assms in_line_not_eof [OF assms]
  by (simp add: peek_unlimited in_line_def char_code_at_pos_def charCodeAt_def code_at_def)

lemma peek_slash_in_line:
  assumes "unlimited document s" and "peek s = Inr (Some slash)"
  shows "in_line document (sr_pos s) \<and> code_at document (sr_pos s) = slash"
  using peek_code_in_line [OF assms(1), of 47] assms(2)
  by (simp add: slash_def code_at_def)

lemma eat_in_line:
  assumes "unlimited document s" and "in_line document (sr_pos s)"
  shows "eat s code =
           (if code_at document (sr_pos s) = code
            then Inr (True, s\<lparr>sr_pos := Position (line (sr_pos s)) (character (sr_pos s) + 1)\<rparr>)
            else Inr (False, s))"
  using next_char_in_line [OF assms] peek_in_line [OF assms]
  by (auto simp: eat_def)

lemma forward_round_line_comment:
  assumes "unlimited document s" and "\<not> isCSS"
    and "in_line document (sr_pos s)" and "code_at document (sr_pos s) = slash"
    and "in_line document (Position (line (sr_pos s)) (character (sr_pos s) + 1))"
    and "code_at document (Position (line (sr_pos s)) (character (sr_pos s) + 1)) = slash"
  shows "forward_round isCSS document endPos s
           = Again (s\<lparr>sr_pos := Position (line (sr_pos s) + 1) 0\<rparr>)"
proof -
  define s1 where "s1 = s\<lparr>sr_pos := Position (line (sr_pos s)) (character (sr_pos s) + 1)\<rparr>"
  have u1: "unlimited document s1" using assms(1) by (simp add: s1_def unlimited_def)
  have i1: "in_line document (sr_pos s1)" using assms(5) by (simp add: s1_def)
  have c1: "code_at document (sr_pos s1) = slash" using assms(6) by (simp add: s1_def)
  have e0: "eat s closeBrace = Inr (False, s)"
    using assms(4) by (simp add: eat_in_line [OF assms(1,3)] slash_def closeBrace_def)
  have e1: "eat s slash = Inr (True, s1)"
    using assms(4) by (simp add: eat_in_line [OF assms(1,3)] s1_def)
  have e2: "eat s1 slash
              = Inr (True, s1\<lparr>sr_pos := Position (line (sr_pos s1)) (character (sr_pos s1) + 1)\<rparr>)"
    using c1 by (simp add: eat_in_line [OF u1 i1])
  have "consumeCommentForwards isCSS document endPos s
          = Inr (s\<lparr>sr_pos := Position (line (sr_pos s) + 1) 0\<rparr>)"
    using e1 e2 assms(2) by (simp add: consumeCommentForwards_def s1_def Position_def)
  then show ?thesis
    using e0 assms(1,3,4) in_line_not_eof [OF assms(1,3)]
    by (simp add: forward_round_def peek_in_line)
qed

lemma forward_round_block_comment:
  assumes "unlimited document s"
    and "in_line document (sr_pos s)" and "code_at document (sr_pos s) = slash"
    and "in_line document (Position (line (sr_pos s)) (character (sr_pos s) + 1))"
    and "code_at document (Position (line (sr_pos s)) (character (sr_pos s) + 1)) = star"
  shows "forward_round isCSS document endPos s
           = Again (s\<lparr>sr_pos :=
               (case findClosingCommentAfterPosition document
                       (Position (line (sr_pos s)) (character (sr_pos s) + 2)) of
                  Some q \<Rightarrow> q
                | None \<Rightarrow> endPos)\<rparr>)"
proof -
  define s1 where "s1 = s\<lparr>sr_pos := Position (line (sr_pos s)) (character (sr_pos s) + 1)\<rparr>"
  have u1: "unlimited document s1" using assms(1) by (simp add: s1_def unlimited_def)
  have i1: "in_line document (sr_pos s1)" using assms(4) by (simp add: s1_def)
  have c1: "code_at document (sr_pos s1) = star" using assms(5) by (simp add: s1_def)
  have e0: "eat s closeBrace = Inr (False, s)"
    using assms(3) by (simp add: eat_in_line [OF assms(1,2)] slash_def closeBrace_def)
  have e1: "eat s slash = Inr (True, s1)"
    using assms(3) by (simp add: eat_in_line [OF assms(1,2)] s1_def)
  have e2: "eat s1 slash = Inr (False, s1)"
    using c1 by (simp add: eat_in_line [OF u1 i1] slash_def star_def)
  have e3: "eat s1 star
              = Inr (True, s1\<lparr>sr_pos := Position (line (sr_pos s1)) (character (sr_pos s1) + 1)\<rparr>)"
    using c1 by (simp add: eat_in_line [OF u1 i1])
  have p2: "Position (line (sr_pos s1)) (character (sr_pos s1) + 1)
              = Position (line (sr_pos s)) (character (sr_pos s) + 2)"
    by (simp add: s1_def Position_def)
  have "consumeCommentForwards isCSS document endPos s
          = Inr (s\<lparr>sr_pos :=
               (case findClosingCommentAfterPosition document
                       (Position (line (sr_pos s)) (character (sr_pos s) + 2)) of
                  Some q \<Rightarrow> q
                | None \<Rightarrow> endPos)\<rparr>)"
    using e1 e2 e3 unfolding p2 by (simp add: consumeCommentForwards_def) (simp add: s1_def)
  then show ?thesis
    using e0 assms(1,2,3) in_line_not_eof [OF assms(1,2)]
    by (simp add: forward_round_def peek_in_line)
qed

lemma forward_round_plain:
  assumes "unlimited document s" and "peek s \<noteq> Inr (Some slash)"
    and "forward_round isCSS document endPos s = Again s1"
  shows "\<not> eof s \<and> peek s \<noteq> Inr (Some closeBrace) \<and> (\<exists>c. next_char s = Inr (c, s1))"
proof -
  have ne: "\<not> eof s" using assms(3) by (auto simp: forward_round_def)
  from eat_step [OF assms(1), of closeBrace] obtain ok s2 where
    e: "eat s closeBrace = Inr (ok, s2)"
    and n: "\<not> ok \<longrightarrow> s2 = s \<and> peek s \<noteq> Inr (Some closeBrace)" by blast
  have no: "\<not> ok" using assms(3) ne e by (auto simp: forward_round_def)
  obtain c where c: "peek s = Inr c" using assms(1) by (simp add: peek_unlimited)
  have "\<exists>c. next_char s = Inr (c, s1)"
    using assms(2,3) ne e no n c by (auto simp: forward_round_def split: sum.splits)
  then show ?thesis using ne no n by simp
qed

lemma in_line_next_eof:
  assumes "unlimited document s" and "in_line document p"
    and "sr_pos s = Position (line p) (character p + 1)" and "eof s"
  shows "sr_pos s = document_end document"
proof -
  have "isAfterOrEqual (sr_pos s) (document_end document)"
    using assms(1,4) by (simp add: eof_def unlimited_def)
  then have "line p = lineCount document - 1
             \<and> character p + 1 = length (text_lines document ! (lineCount document - 1))"
    using assms(2,3) by (auto simp: in_line_def document_end_def position_iffs)
  then show ?thesis using assms(3) by (simp add: document_end_def)
qed

lemma in_line_before_end:
  assumes "in_line document q"
  shows "isBefore q (document_end document)"
proof (cases "line q = lineCount document - 1")
  case True
  then show ?thesis using assms by (simp add: in_line_def document_end_def position_iffs)
next
  case False
  then have "line q < lineCount document - 1" using assms unfolding in_line_def by linarith
  then show ?thesis by (simp add: document_end_def position_iffs)
qed

lemma unlimited_initial: "unlimited document (DocumentStreamReader document (Some position) None)"
  by (simp add: unlimited_def DocumentStreamReader_def)

lemma forward_scan_of_loop:
  assumes "forward_loop (languageId document = ''css'') document (document_end document)
             (DocumentStreamReader document (Some position) None) = Some (Inr s')"
  shows "\<exists>sc. forward_scan document position = Some (Inr sc)
           \<and> sc_stream sc = s'\<lparr>sr_pos := position\<rparr>
           \<and> endPosition sc = (if \<not> eof s' then sr_pos s' else document_end document)
           \<and> startPosition sc = Position 0 0 \<and> openBracesToFind sc = 1
           \<and> currentLine sc = line position \<and> \<not> exit sc \<and> \<not> foundSelector sc"
  using assms by (simp add: forward_scan_def Let_def)

lemma forward_loop_end:
  assumes u: "unlimited document s0"
    and d: "forward_round isCSS document (document_end document) s0 = Done s'"
  shows "unlimited document s'
         \<and> ((eof s0 \<and> s' = s0 \<and> (if \<not> eof s' then sr_pos s' else document_end document)
                 = document_end document)
            \<or> (\<not> eof s0 \<and> in_line document (sr_pos s0)
                \<and> code_at document (sr_pos s0) = closeBrace
                \<and> (if \<not> eof s' then sr_pos s' else document_end document)
                     = Position (line (sr_pos s0)) (character (sr_pos s0) + 1)))"
proof -
  from forward_round_step [OF u, of isCSS] d
  consider (a) "eof s0" "s' = s0"
    | (b) "\<not> eof s0" "in_line document (sr_pos s0)" "peek s0 = Inr (Some closeBrace)"
        "s' = s0\<lparr>sr_pos := Position (line (sr_pos s0)) (character (sr_pos s0) + 1)\<rparr>"
    by auto
  then show ?thesis
  proof cases
    case a
    then show ?thesis using u by simp
  next
    case b
    have u': "unlimited document s'" using u b(4) by (simp add: unlimited_def)
    have c: "code_at document (sr_pos s0) = closeBrace"
      using peek_in_line [OF u b(2)] b(3) by simp
    have p': "sr_pos s' = Position (line (sr_pos s0)) (character (sr_pos s0) + 1)"
      using b(4) by simp
    have "eof s' \<Longrightarrow> sr_pos s' = document_end document"
      using in_line_next_eof [OF u' b(2) p'] .
    then show ?thesis using u' b c p' by auto
  qed
qed

lemma forward_scan_general:
  "\<exists>sc. forward_scan document position = Some (Inr sc)
     \<and> unlimited document (sc_stream sc) \<and> sr_pos (sc_stream sc) = position
     \<and> startPosition sc = Position 0 0 \<and> openBracesToFind sc = 1
     \<and> currentLine sc = line position \<and> \<not> exit sc
     \<and> (endPosition sc = document_end document
        \<or> (\<exists>p. in_line document p \<and> code_at document p = closeBrace
              \<and> isAfterOrEqual p position
              \<and> endPosition sc = Position (line p) (character p + 1)))"
proof -
  define isCSS where "isCSS = (languageId document = ''css'')"
  define s where "s = DocumentStreamReader document (Some position) None"
  define I where "I = (\<lambda>s. eof s \<or> isAfterOrEqual (sr_pos s) position)"
  have u: "unlimited document s" unfolding s_def by (rule unlimited_initial)
  have i: "I s" by (simp add: I_def s_def DocumentStreamReader_def position_iffs)
  have step: "I s1" if "unlimited document s0" "I s0"
    "forward_round isCSS document (document_end document) s0 = Again s1" for s0 s1
    using forward_round_step [OF that(1), of isCSS] that(2,3)
    by (auto simp: I_def later_def position_iffs)
  have "\<exists>s0 s'. forward_loop isCSS document (document_end document) s = Some (Inr s')
           \<and> unlimited document s0 \<and> I s0
           \<and> forward_round isCSS document (document_end document) s0 = Done s'"
    by (rule forward_loop_rule [where I = I, OF u i]) (rule step)
  then obtain s0 s' where
    loop: "forward_loop isCSS document (document_end document) s = Some (Inr s')"
    and u0: "unlimited document s0" and i0: "I s0"
    and d: "forward_round isCSS document (document_end document) s0 = Done s'" by blast
  from forward_scan_of_loop [OF loop [unfolded isCSS_def s_def]] obtain sc where
    sc: "forward_scan document position = Some (Inr sc)"
    "sc_stream sc = s'\<lparr>sr_pos := position\<rparr>"
    "endPosition sc = (if \<not> eof s' then sr_pos s' else document_end document)"
    "startPosition sc = Position 0 0" "openBracesToFind sc = 1"
    "currentLine sc = line position" "\<not> exit sc" by blast
  note e = forward_loop_end [OF u0 d]
  have us: "unlimited document (sc_stream sc)" using e sc(2) by (simp add: unlimited_def)
  have "endPosition sc = document_end document
        \<or> (\<exists>p. in_line document p \<and> code_at document p = closeBrace
              \<and> isAfterOrEqual p position
              \<and> endPosition sc = Position (line p) (character p + 1))"
    using e i0 sc(3) by (auto simp: I_def)
  then show ?thesis using sc us by auto
qed

lemma slash_free_peek:
  assumes "slash_free document" and "unlimited document s"
  shows "peek s \<noteq> Inr (Some slash)"
proof
  assume "peek s = Inr (Some slash)"
  from peek_slash_in_line [OF assms(2) this]
  have il: "in_line document (sr_pos s)" and c: "code_at document (sr_pos s) = slash" by simp_all
  define t where "t = text_lines document ! line (sr_pos s)"
  have "t \<in> set (text_lines document)"
    using il by (simp add: in_line_def t_def lineCount_def)
  moreover have "t ! character (sr_pos s) \<in> set t" using il by (simp add: in_line_def t_def)
  moreover have "of_char (t ! character (sr_pos s)) = (of_char CHR ''/'' :: nat)"
    using c by (simp add: code_at_def slash_def t_def)
  then have "t ! character (sr_pos s) = CHR ''/''" by (simp only: of_char_eq_iff)
  ultimately show False using assms(1) by (auto simp: slash_free_def)
qed

lemma forward_scan_slash_free:
  assumes "slash_free document"
  shows "\<exists>sc. forward_scan document position = Some (Inr sc)
     \<and> ((endPosition sc = document_end document
          \<and> (\<forall>q. in_line document q \<and> isAfterOrEqual q position
                 \<longrightarrow> code_at document q \<noteq> closeBrace))
        \<or> (\<exists>p. in_line document p \<and> code_at document p = closeBrace
              \<and> isAfterOrEqual p position
              \<and> (\<forall>q. in_line document q \<and> isAfterOrEqual q position \<and> isBefore q p
                     \<longrightarrow> code_at document q \<noteq> closeBrace)
              \<and> endPosition sc = Position (line p) (character p + 1)))"
proof -
  define isCSS where "isCSS = (languageId document = ''css'')"
  define s where "s = DocumentStreamReader document (Some position) None"
  define I where "I = (\<lambda>s. (eof s \<or> isAfterOrEqual (sr_pos s) position)
      \<and> (\<forall>q. in_line document q \<and> isAfterOrEqual q position \<and> isBefore q (sr_pos s)
             \<longrightarrow> code_at document q \<noteq> closeBrace))"
  have u: "unlimited document s" unfolding s_def by (rule unlimited_initial)
  have i: "I s" by (auto simp: I_def s_def DocumentStreamReader_def position_iffs)
  have step: "I s1" if "unlimited document s0" "I s0"
    "forward_round isCSS document (document_end document) s0 = Again s1" for s0 s1
  proof -
    from forward_round_plain [OF that(1) slash_free_peek [OF assms that(1)] that(3)]
    obtain c where ne: "\<not> eof s0" and nb: "peek s0 \<noteq> Inr (Some closeBrace)"
      and nx: "next_char s0 = Inr (c, s1)" by blast
    from next_char_step [OF that(1) ne] nx
    have lat: "later document (sr_pos s0) (sr_pos s1)"
      and only: "\<forall>q. in_line document q \<and> isAfterOrEqual q (sr_pos s0) \<and> isBefore q (sr_pos s1)
                  \<longrightarrow> q = sr_pos s0" by auto
    have ge0: "isAfterOrEqual (sr_pos s0) position" using that(2) ne by (simp add: I_def)
    have ge1: "isAfterOrEqual (sr_pos s1) position"
      using ge0 lat by (auto simp: later_def position_iffs)
    have "code_at document q \<noteq> closeBrace"
      if q: "in_line document q \<and> isAfterOrEqual q position \<and> isBefore q (sr_pos s1)" for q
    proof (cases "isBefore q (sr_pos s0)")
      case True
      then show ?thesis using \<open>I s0\<close> q by (simp add: I_def)
    next
      case False
      then have "q = sr_pos s0" using only q by (simp add: isAfterOrEqual_def)
      then show ?thesis using peek_in_line [OF \<open>unlimited document s0\<close>] q nb by auto
    qed
    then show ?thesis using ge1 by (simp add: I_def)
  qed
  have "\<exists>s0 s'. forward_loop isCSS document (document_end document) s = Some (Inr s')
           \<and> unlimited document s0 \<and> I s0
           \<and> forward_round isCSS document (document_end document) s0 = Done s'"
    by (rule forward_loop_rule [where I = I, OF u i]) (rule step)
  then obtain s0 s' where
    loop: "forward_loop isCSS document (document_end document) s = Some (Inr s')"
    and u0: "unlimited document s0" and i0: "I s0"
    and d: "forward_round isCSS document (document_end document) s0 = Done s'" by blast
  from forward_scan_of_loop [OF loop [unfolded isCSS_def s_def]] obtain sc where
    sc: "forward_scan document position = Some (Inr sc)"
    "endPosition sc = (if \<not> eof s' then sr_pos s' else document_end document)" by blast
  note e = forward_loop_end [OF u0 d]
  have none: "\<forall>q. in_line document q \<and> isAfterOrEqual q position
                 \<longrightarrow> code_at document q \<noteq> closeBrace" if "eof s0"
  proof (intro allI impI)
    fix q assume q: "in_line document q \<and> isAfterOrEqual q position"
    have "isAfterOrEqual (sr_pos s0) (document_end document)"
      using u0 that by (simp add: eof_def unlimited_def)
    moreover have "isBefore q (document_end document)" using q by (simp add: in_line_before_end)
    ultimately have "isBefore q (sr_pos s0)" by (auto simp: position_iffs)
    then show "code_at document q \<noteq> closeBrace" using i0 q by (simp add: I_def)
  qed
  have "(endPosition sc = document_end document
          \<and> (\<forall>q. in_line document q \<and> isAfterOrEqual q position
                 \<longrightarrow> code_at document q \<noteq> closeBrace))
        \<or> (\<exists>p. in_line document p \<and> code_at document p = closeBrace
              \<and> isAfterOrEqual p position
              \<and> (\<forall>q. in_line document q \<and> isAfterOrEqual q position \<and> isBefore q p
                     \<longrightarrow> code_at document q \<noteq> closeBrace)
              \<and> endPosition sc = Position (line p) (character p + 1))"
  proof (cases "eof s0")
    case True
    then show ?thesis using e none sc(2) by simp
  next
    case False
    then have "in_line document (sr_pos s0) \<and> code_at document (sr_pos s0) = closeBrace
        \<and> isAfterOrEqual (sr_pos s0) position
        \<and> (\<forall>q. in_line document q \<and> isAfterOrEqual q position \<and> isBefore q (sr_pos s0)
               \<longrightarrow> code_at document q \<noteq> closeBrace)
        \<and> endPosition sc = Position (line (sr_pos s0)) (character (sr_pos s0) + 1)"
      using e i0 sc(2) by (simp add: I_def)
    then show ?thesis by blast
  qed
  with sc(1) show ?thesis by blast
qed

section \<open>The backward scan ends\<close>




















section \<open>The cut-off of the backward scan\<close>

lemma backUp_same_line:
  assumes "unlimited document s" and "0 < character (sr_pos s)"
  shows "\<exists>code. backUp s 1
           = Inr (code, s\<lparr>sr_pos := Position (line (sr_pos s)) (character (sr_pos s) - 1)\<rparr>)
         \<and> peek (s\<lparr>sr_pos := Position (line (sr_pos s)) (character (sr_pos s) - 1)\<rparr>) = Inr code"
proof -
  define s1 where "s1 = s\<lparr>sr_pos := Position (line (sr_pos s)) (character (sr_pos s) - 1)\<rparr>"
  have u1: "unlimited document s1" using assms(1) by (simp add: s1_def unlimited_def)
  obtain code where pk: "peek s1 = Inr code" using u1 by (simp add: peek_unlimited)
  have "backUp_loop (sr_document s) (int (line (sr_pos s))) (int (character (sr_pos s)) - 1)
          = Inr (int (line (sr_pos s)), int (character (sr_pos s)) - 1)"
    using assms(2) by (subst backUp_loop.simps) simp
  then have "backUp s 1 = Inr (code, s1)"
    using pk assms(2) by (simp add: backUp_def s1_def Let_def nat_diff_distrib')
  then show ?thesis using pk by (auto simp: s1_def)
qed









section \<open>Braces in the backward scan\<close>

lemma plain_char_code:
  "plain_char ch \<Longrightarrow> (of_char ch :: nat) \<noteq> openBrace \<and> (of_char ch :: nat) \<noteq> closeBrace
     \<and> (of_char ch :: nat) \<noteq> slash"
proof -
  assume "plain_char ch"
  then have "(of_char ch :: nat) \<noteq> of_char CHR ''{'' \<and> (of_char ch :: nat) \<noteq> of_char CHR ''}''
             \<and> (of_char ch :: nat) \<noteq> of_char CHR ''/''"
    unfolding plain_char_def by (simp only: of_char_eq_iff) simp
  then show ?thesis by (simp add: openBrace_def closeBrace_def slash_def)
qed

lemma backward_round_single_line:
  assumes tl: "text_lines document = [t]" and j: "0 < j" "j \<le> length t"
    and u: "unlimited document (sc_stream sc)"
    and pos: "sr_pos (sc_stream sc) = Position 0 j"
    and cl: "currentLine sc = 0" and g: "backward_guard sc"
  shows "backward_loop isCSS document position limit sc
           = (case backward_switch isCSS document (Some (of_char (t ! (j - 1))))
                     (sc\<lparr>sc_stream := (sc_stream sc)\<lparr>sr_pos := Position 0 (j - 1)\<rparr>\<rparr>) of
                Inl e \<Rightarrow> Some (Inl e)
              | Inr sc3 \<Rightarrow> backward_loop isCSS document position limit (cutoff position limit sc3))"
proof -
  define s1 where "s1 = (sc_stream sc)\<lparr>sr_pos := Position 0 (j - 1)\<rparr>"
  have u1: "unlimited document s1" using u by (simp add: s1_def unlimited_def)
  have c: "consumeLineCommentBackwards isCSS document sc = Inr sc"
    using pos cl by (simp add: consumeLineCommentBackwards_def Position_def)
  from backUp_same_line [OF u] pos j(1)
  obtain code where b: "backUp (sc_stream sc) 1 = Inr (code, s1)" and pk: "peek s1 = Inr code"
    by (auto simp: s1_def Position_def)
  have il: "in_line document (sr_pos s1)"
    using j tl by (simp add: in_line_def s1_def lineCount_def Position_def)
  have "code = Some (code_at document (sr_pos s1))" using peek_in_line [OF u1 il] pk by simp
  then have code: "code = Some (of_char (t ! (j - 1)))"
    using tl by (simp add: code_at_def s1_def Position_def)
  have "backward_step isCSS document position limit sc
          = (case backward_switch isCSS document (Some (of_char (t ! (j - 1))))
                     (sc\<lparr>sc_stream := s1\<rparr>) of
               Inl e \<Rightarrow> Inl e | Inr sc3 \<Rightarrow> Inr (cutoff position limit sc3))"
    using c b code by (simp add: backward_step_def)
  then show ?thesis
    using g unfolding s1_def
    by (subst backward_loop.simps) (simp split: sum.splits)
qed

lemma cutoff_single_line:
  assumes "line position = 0" and "sr_pos (sc_stream sc) = Position 0 i" and "0 < i"
  shows "cutoff position (Position 0 0) sc = sc"
  using assms by (simp add: cutoff_def position_iffs)

lemma backward_run:
  assumes tl: "text_lines document = [t]" and lp: "line position = 0"
    and plain: "\<forall>k. i \<le> k \<and> k < j0 \<longrightarrow> plain_char (t ! k)" and i: "0 < i" and j0: "j0 \<le> length t"
  shows "i \<le> j \<Longrightarrow> j \<le> j0 \<Longrightarrow> unlimited document (sc_stream sc) \<Longrightarrow>
         sr_pos (sc_stream sc) = Position 0 j \<Longrightarrow> \<not> exit sc \<Longrightarrow> 0 < openBracesToFind sc \<Longrightarrow>
         currentLine sc = 0 \<Longrightarrow>
         backward_loop isCSS document position (Position 0 0) sc
           = backward_loop isCSS document position (Position 0 0)
               (sc\<lparr>sc_stream := (sc_stream sc)\<lparr>sr_pos := Position 0 i\<rparr>\<rparr>)"
proof (induction j arbitrary: sc)
  case 0
  then show ?case using i by simp
next
  case (Suc j)
  show ?case
  proof (cases "i = Suc j")
    case True
    have "(sc_stream sc)\<lparr>sr_pos := Position 0 i\<rparr> = sc_stream sc"
      using Suc.prems(4) True by simp
    then show ?thesis by simp
  next
    case False
    then have ij: "i \<le> j" using Suc.prems(1) by simp
    define sc1 where "sc1 = sc\<lparr>sc_stream := (sc_stream sc)\<lparr>sr_pos := Position 0 j\<rparr>\<rparr>"
    have g: "backward_guard sc"
      using Suc.prems by (simp add: backward_guard_def sof_def unlimited_def position_iffs)
    have pc: "plain_char (t ! j)" using plain ij Suc.prems(2) by simp
    have sw: "backward_switch isCSS document (Some (of_char (t ! j))) sc1 = Inr sc1"
      using plain_char_code [OF pc] by (simp add: backward_switch_def)
    have "0 < j" using ij i by simp
    then have cut: "cutoff position (Position 0 0) sc1 = sc1"
      using lp by (intro cutoff_single_line [where i = j]) (simp_all add: sc1_def)
    have "Suc j \<le> length t" using Suc.prems(2) j0 by simp
    from backward_round_single_line [OF tl _ this Suc.prems(3,4,7) g, of isCSS position "Position 0 0"]
    have step: "backward_loop isCSS document position (Position 0 0) sc
                  = backward_loop isCSS document position (Position 0 0) sc1"
      using sw cut by (simp add: sc1_def)
    have "backward_loop isCSS document position (Position 0 0) sc1
            = backward_loop isCSS document position (Position 0 0)
                (sc1\<lparr>sc_stream := (sc_stream sc1)\<lparr>sr_pos := Position 0 i\<rparr>\<rparr>)"
      using ij Suc.prems by (intro Suc.IH) (simp_all add: sc1_def unlimited_def)
    then show ?thesis using step by (simp add: sc1_def)
  qed
qed

lemma backward_brace_round:
  assumes tl: "text_lines document = [t]" and lp: "line position = 0"
    and j: "1 < j" "j \<le> length t"
    and u: "unlimited document (sc_stream sc)"
    and pos: "sr_pos (sc_stream sc) = Position 0 j"
    and cl: "currentLine sc = 0" and ne: "\<not> exit sc" and ob: "0 < openBracesToFind sc"
  shows "(t ! (j - 1) = CHR ''{'' \<longrightarrow>
            backward_loop isCSS document position (Position 0 0) sc
              = backward_loop isCSS document position (Position 0 0)
                  (sc\<lparr>sc_stream := (sc_stream sc)\<lparr>sr_pos := Position 0 (j - 1)\<rparr>,
                      openBracesToFind := openBracesToFind sc - 1\<rparr>))
       \<and> (t ! (j - 1) = CHR ''}'' \<and> \<not> isCSS \<longrightarrow>
            backward_loop isCSS document position (Position 0 0) sc
              = backward_loop isCSS document position (Position 0 0)
                  (sc\<lparr>sc_stream := (sc_stream sc)\<lparr>sr_pos := Position 0 (j - 1)\<rparr>,
                      openBracesToFind := openBracesToFind sc + 1\<rparr>))
       \<and> (t ! (j - 1) = CHR ''}'' \<and> isCSS \<longrightarrow>
            backward_loop isCSS document position (Position 0 0) sc
              = Some (Inr (sc\<lparr>startPosition := Position 0 j, exit := True\<rparr>)))"
proof -
  define s1 where "s1 = (sc_stream sc)\<lparr>sr_pos := Position 0 (j - 1)\<rparr>"
  have u1: "unlimited document s1" using u by (simp add: s1_def unlimited_def)
  have g: "backward_guard sc"
    using ne ob u pos j by (simp add: backward_guard_def sof_def unlimited_def position_iffs)
  have j0: "0 < j" using j by simp
  note r = backward_round_single_line [OF tl j0 j(2) u pos cl g, of isCSS position "Position 0 0",
      folded s1_def]
  have cut: "cutoff position (Position 0 0) (sc\<lparr>sc_stream := s1, openBracesToFind := n\<rparr>)
               = sc\<lparr>sc_stream := s1, openBracesToFind := n\<rparr>" for n
    using lp j by (intro cutoff_single_line [where i = "j - 1"]) (simp_all add: s1_def)
  have il: "in_line document (sr_pos s1)"
    using j tl by (simp add: in_line_def s1_def lineCount_def Position_def)
  from next_char_in_line [OF u1 il] obtain c where
    nx: "next_char s1 = Inr (c, s1\<lparr>sr_pos := Position 0 j\<rparr>)"
    using j by (auto simp: s1_def Position_def)
  have restore: "s1\<lparr>sr_pos := Position 0 j\<rparr> = sc_stream sc" using pos by (simp add: s1_def)
  have opn: "t ! (j - 1) = CHR ''{'' \<longrightarrow>
            backward_loop isCSS document position (Position 0 0) sc
              = backward_loop isCSS document position (Position 0 0)
                  (sc\<lparr>sc_stream := s1, openBracesToFind := openBracesToFind sc - 1\<rparr>)"
  proof
    assume h: "t ! (j - 1) = CHR ''{''"
    have "backward_switch isCSS document (Some (of_char (t ! (j - 1)))) (sc\<lparr>sc_stream := s1\<rparr>)
            = Inr (sc\<lparr>sc_stream := s1, openBracesToFind := openBracesToFind sc - 1\<rparr>)"
      using h by (simp add: backward_switch_def openBrace_def)
    then show "backward_loop isCSS document position (Position 0 0) sc
              = backward_loop isCSS document position (Position 0 0)
                  (sc\<lparr>sc_stream := s1, openBracesToFind := openBracesToFind sc - 1\<rparr>)"
      using r cut by simp
  qed
  have len: "t ! (j - 1) = CHR ''}'' \<and> \<not> isCSS \<longrightarrow>
            backward_loop isCSS document position (Position 0 0) sc
              = backward_loop isCSS document position (Position 0 0)
                  (sc\<lparr>sc_stream := s1, openBracesToFind := openBracesToFind sc + 1\<rparr>)"
  proof
    assume h: "t ! (j - 1) = CHR ''}'' \<and> \<not> isCSS"
    have "backward_switch isCSS document (Some (of_char (t ! (j - 1)))) (sc\<lparr>sc_stream := s1\<rparr>)
            = Inr (sc\<lparr>sc_stream := s1, openBracesToFind := openBracesToFind sc + 1\<rparr>)"
      using h by (simp add: backward_switch_def openBrace_def closeBrace_def)
    then show "backward_loop isCSS document position (Position 0 0) sc
              = backward_loop isCSS document position (Position 0 0)
                  (sc\<lparr>sc_stream := s1, openBracesToFind := openBracesToFind sc + 1\<rparr>)"
      using r cut by simp
  qed
  have css: "t ! (j - 1) = CHR ''}'' \<and> isCSS \<longrightarrow>
            backward_loop isCSS document position (Position 0 0) sc
              = Some (Inr (sc\<lparr>startPosition := Position 0 j, exit := True\<rparr>))"
  proof
    assume h: "t ! (j - 1) = CHR ''}'' \<and> isCSS"
    have sw: "backward_switch isCSS document (Some (of_char (t ! (j - 1)))) (sc\<lparr>sc_stream := s1\<rparr>)
                = Inr (sc\<lparr>startPosition := Position 0 j, exit := True\<rparr>)"
      using h nx restore pos by (simp add: backward_switch_def openBrace_def closeBrace_def)
    have "cutoff position (Position 0 0) (sc\<lparr>startPosition := Position 0 j, exit := True\<rparr>)
            = sc\<lparr>startPosition := Position 0 j, exit := True\<rparr>"
      by (simp add: cutoff_exit)
    then show "backward_loop isCSS document position (Position 0 0) sc
              = Some (Inr (sc\<lparr>startPosition := Position 0 j, exit := True\<rparr>))"
      using r sw by (simp add: backward_loop_exit)
  qed
  from opn len css show ?thesis unfolding s1_def by blast
qed

lemma backward_loop_stop:
  "\<not> backward_guard sc \<Longrightarrow> backward_loop isCSS document position limit sc = Some (Inr sc)"
  by (subst backward_loop.simps) simp

lemma nested_block_backward:
  assumes tl: "text_lines document = [t]" and c: "c \<le> length t"
    and k: "0 < k0" "k0 < k1" "k1 < k2" "k2 < c"
    and braces: "t ! k0 = CHR ''{''" "t ! k1 = CHR ''{''" "t ! k2 = CHR ''}''"
    and plain: "\<forall>k. (k0 < k \<and> k < k1) \<or> (k1 < k \<and> k < k2) \<or> (k2 < k \<and> k < c)
                  \<longrightarrow> plain_char (t ! k)"
    and u: "unlimited document (sc_stream sc)"
    and pos: "sr_pos (sc_stream sc) = Position 0 c"
    and ne: "\<not> exit sc" and ob: "openBracesToFind sc = 1" and cl: "currentLine sc = 0"
  shows "backward_loop isCSS document (Position 0 c) (Position 0 0) sc
           = Some (Inr (if isCSS
                        then sc\<lparr>sc_stream := (sc_stream sc)\<lparr>sr_pos := Position 0 (k2 + 1)\<rparr>,
                                startPosition := Position 0 (k2 + 1), exit := True\<rparr>
                        else sc\<lparr>sc_stream := (sc_stream sc)\<lparr>sr_pos := Position 0 k0\<rparr>,
                                openBracesToFind := 0\<rparr>))"
proof -
  let ?loop = "backward_loop isCSS document (Position 0 c) (Position 0 0)"
  have lp: "line (Position 0 c) = 0" by (simp add: Position_def)
  define at where "at = (\<lambda>j n. sc\<lparr>sc_stream := (sc_stream sc)\<lparr>sr_pos := Position 0 j\<rparr>,
                                     openBracesToFind := n\<rparr>)"
  have st: "unlimited document (sc_stream (at j n))" "sr_pos (sc_stream (at j n)) = Position 0 j"
    "\<not> exit (at j n)" "openBracesToFind (at j n) = n" "currentLine (at j n) = 0" for j n
    using u ne cl by (simp_all add: at_def unlimited_def)
  have move: "(at j n)\<lparr>sc_stream := (sc_stream (at j n))\<lparr>sr_pos := Position 0 i\<rparr>\<rparr> = at i n" for i j n
    by (simp add: at_def)
  have chg: "(at j n)\<lparr>sc_stream := (sc_stream (at j n))\<lparr>sr_pos := Position 0 i\<rparr>,
                     openBracesToFind := m\<rparr> = at i m" for i j n m
    by (simp add: at_def)
  have "at c 1 = sc" using pos ob by (simp add: at_def)
  then have start: "?loop sc = ?loop (at c 1)" by simp
  have run: "?loop (at j n) = ?loop (at i n)"
    if "0 < i" "i \<le> j" "j \<le> c" "0 < n" "\<forall>k. i \<le> k \<and> k < j \<longrightarrow> plain_char (t ! k)" for i j n
  proof -
    have "j \<le> length t" using that(3) c by simp
    from backward_run [OF tl lp that(5) that(1) this that(2) order_refl st(1,2,3) _ st(5),
        of n isCSS] that(4) st(4)
    show ?thesis by (simp add: move)
  qed
  have r1: "?loop (at c 1) = ?loop (at (k2 + 1) 1)"
    using k plain by (intro run) auto
  have b1: "1 < k2 + 1" "k2 + 1 \<le> length t" using k c by simp_all
  note br1 = backward_brace_round [OF tl lp b1 st(1,2,5,3), of 1 isCSS, simplified st(4)]
  show ?thesis
  proof (cases isCSS)
    case True
    have "?loop (at (k2 + 1) 1)
            = Some (Inr ((at (k2 + 1) 1)\<lparr>startPosition := Position 0 (k2 + 1), exit := True\<rparr>))"
      using br1 braces(3) True by simp
    then have "?loop sc
            = Some (Inr ((at (k2 + 1) 1)\<lparr>startPosition := Position 0 (k2 + 1), exit := True\<rparr>))"
      using start r1 by (simp only:)
    moreover have "(at (k2 + 1) 1)\<lparr>startPosition := Position 0 (k2 + 1), exit := True\<rparr>
        = sc\<lparr>sc_stream := (sc_stream sc)\<lparr>sr_pos := Position 0 (k2 + 1)\<rparr>,
             startPosition := Position 0 (k2 + 1), exit := True\<rparr>"
      using ob by (cases sc) (simp add: at_def)
    ultimately show ?thesis using True by simp
  next
    case False
    have s2: "?loop (at (k2 + 1) 1) = ?loop (at k2 2)"
      using br1 braces(3) False by (simp add: chg)
    have r2: "?loop (at k2 2) = ?loop (at (k1 + 1) 2)"
      using k plain by (intro run) auto
    have b2: "1 < k1 + 1" "k1 + 1 \<le> length t" using k c by simp_all
    note br2 = backward_brace_round [OF tl lp b2 st(1,2,5,3), of 2 isCSS, simplified st(4)]
    have s3: "?loop (at (k1 + 1) 2) = ?loop (at k1 1)"
      using br2 braces(2) by (simp add: chg)
    have r3: "?loop (at k1 1) = ?loop (at (k0 + 1) 1)"
      using k plain by (intro run) auto
    have b3: "1 < k0 + 1" "k0 + 1 \<le> length t" using k c by simp_all
    note br3 = backward_brace_round [OF tl lp b3 st(1,2,5,3), of 1 isCSS, simplified st(4)]
    have s4: "?loop (at (k0 + 1) 1) = ?loop (at k0 0)"
      using br3 braces(1) by (simp add: chg)
    have "\<not> backward_guard (at k0 0)" by (simp add: backward_guard_def st)
    then have "?loop (at k0 0) = Some (Inr (at k0 0))" by (rule backward_loop_stop)
    then have "?loop sc = Some (Inr (at k0 0))"
      using start r1 s2 r2 s3 r3 s4 by (simp only:)
    then show ?thesis using False by (simp add: at_def)
  qed
qed

lemma limitPosition_short_line:
  assumes "text_lines document = [t]" and "c \<le> 5000" and "c \<le> length t"
  shows "limitPosition_of document (Position 0 c) = Position 0 0"
proof -
  have "offsetAt document (Position 0 c) = c"
    using assms
    by (simp add: offsetAt_def validatePosition_def lineCount_def line_start_def Position_def Let_def)
  then show ?thesis using assms by (simp add: limitPosition_of_def Let_def)
qed

lemma selector_loop_stop:
  "\<not> selector_guard sc \<Longrightarrow> selector_loop isCSS document sc = Some (Inr sc)"
  by (subst selector_loop.simps) simp

lemma selector_found:
  assumes tl: "text_lines document = [t]" and k: "0 < k0" "k0 \<le> length t"
    and u: "unlimited document (sc_stream sc)"
    and pos: "sr_pos (sc_stream sc) = Position 0 k0"
    and ne: "\<not> exit sc" and st: "startPosition sc = Position 0 0"
    and pc: "plain_char (t ! (k0 - 1))"
    and nw: "\<not> isWhitespace (Some (of_char (t ! (k0 - 1))))"
  shows "\<exists>sc'. selector_scan document sc = Some (Inr sc')
           \<and> startPosition sc' = Position 0 (k0 - 1) \<and> endPosition sc' = endPosition sc"
proof -
  define isCSS where "isCSS = (languageId document = ''css'')"
  define s0 where "s0 = sc\<lparr>currentLine := line (sr_pos (sc_stream sc)), openBracesToFind := 0,
                            foundSelector := False\<rparr>"
  define s1 where "s1 = (sc_stream sc)\<lparr>sr_pos := Position 0 (k0 - 1)\<rparr>"
  have u1: "unlimited document s1" using u by (simp add: s1_def unlimited_def)
  have g: "selector_guard s0"
    using ne u pos k by (simp add: selector_guard_def s0_def sof_def unlimited_def position_iffs)
  have c: "consumeLineCommentBackwards isCSS document s0 = Inr s0"
    by (simp add: consumeLineCommentBackwards_def s0_def)
  have u0: "unlimited document (sc_stream s0)" using u by (simp add: s0_def)
  from backUp_same_line [OF u0] pos k(1)
  obtain code where b: "backUp (sc_stream s0) 1 = Inr (code, s1)" and pk: "peek s1 = Inr code"
    by (auto simp: s0_def s1_def Position_def)
  have il: "in_line document (sr_pos s1)"
    using k tl by (simp add: in_line_def s1_def lineCount_def Position_def)
  have "code = Some (code_at document (sr_pos s1))" using peek_in_line [OF u1 il] pk by simp
  then have code: "code = Some (of_char (t ! (k0 - 1)))"
    using tl by (simp add: code_at_def s1_def Position_def)
  have sw: "selector_switch document code (s0\<lparr>sc_stream := s1\<rparr>)
              = Inr (s0\<lparr>sc_stream := s1, foundSelector := True\<rparr>)"
    using plain_char_code [OF pc] code by (simp add: selector_switch_def s0_def)
  define s2 where "s2 = (if \<not> sof s1 then s0\<lparr>sc_stream := s1, foundSelector := True,
                                                 startPosition := sr_pos s1\<rparr>
                         else s0\<lparr>sc_stream := s1, foundSelector := True\<rparr>)"
  have step: "selector_step isCSS document s0 = Inr s2"
    using c b sw nw code by (simp add: selector_step_def s2_def)
  have stop: "\<not> selector_guard s2" by (simp add: selector_guard_def s2_def)
  have "selector_loop isCSS document s0 = selector_loop isCSS document s2"
    using g step by (subst selector_loop.simps) simp
  then have r: "selector_scan document sc = Some (Inr s2)"
    using selector_loop_stop [OF stop] by (simp add: selector_scan_def isCSS_def s0_def)
  have "startPosition s2 = Position 0 (k0 - 1)"
  proof (cases "sof s1")
    case True
    then have "k0 - 1 = 0" using u1 by (simp add: sof_def s1_def unlimited_def position_iffs)
    then show ?thesis using True st by (simp add: s2_def s0_def)
  next
    case False
    then show ?thesis by (simp add: s2_def s1_def)
  qed
  moreover have "endPosition s2 = endPosition sc" by (simp add: s2_def s0_def)
  ultimately show ?thesis using r by blast
qed

lemma nested_block_boundaries:
  assumes tl: "text_lines document = [t]" and c: "c \<le> length t" "c \<le> 5000"
    and k: "0 < k0" "k0 < k1" "k1 < k2" "k2 < c"
    and braces: "t ! k0 = CHR ''{''" "t ! k1 = CHR ''{''" "t ! k2 = CHR ''}''"
    and plain: "\<forall>k. (k0 < k \<and> k < k1) \<or> (k1 < k \<and> k < k2) \<or> (k2 < k \<and> k < c)
                  \<longrightarrow> plain_char (t ! k)"
    and sel: "plain_char (t ! (k0 - 1))" "\<not> isWhitespace (Some (of_char (t ! (k0 - 1))))"
  shows "\<exists>sc. partial_boundaries document (Position 0 c) = Some (Inr sc)
           \<and> startPosition sc = (if languageId document = ''css'' then Position 0 (k2 + 1)
                                 else Position 0 (k0 - 1))"
proof -
  define isCSS where "isCSS = (languageId document = ''css'')"
  from forward_scan_general [of document "Position 0 c"] obtain sc0 where
    f: "forward_scan document (Position 0 c) = Some (Inr sc0)"
    and sc0: "unlimited document (sc_stream sc0)" "sr_pos (sc_stream sc0) = Position 0 c"
    "startPosition sc0 = Position 0 0" "openBracesToFind sc0 = 1"
    "currentLine sc0 = line (Position 0 c)" "\<not> exit sc0" by blast
  have cl: "currentLine sc0 = 0" using sc0(5) by (simp add: Position_def)
  define sc1 where "sc1 = (if isCSS
      then sc0\<lparr>sc_stream := (sc_stream sc0)\<lparr>sr_pos := Position 0 (k2 + 1)\<rparr>,
               startPosition := Position 0 (k2 + 1), exit := True\<rparr>
      else sc0\<lparr>sc_stream := (sc_stream sc0)\<lparr>sr_pos := Position 0 k0\<rparr>,
               openBracesToFind := 0\<rparr>)"
  from nested_block_backward [OF tl c(1) k braces plain sc0(1,2,6,4) cl, of isCSS]
  have "backward_loop isCSS document (Position 0 c) (Position 0 0) sc0 = Some (Inr sc1)"
    by (simp add: sc1_def)
  then have b: "backward_scan document (Position 0 c) sc0 = Some (Inr sc1)"
    using limitPosition_short_line [OF tl c(2,1)] by (simp add: backward_scan_def isCSS_def)
  have p: "partial_boundaries document (Position 0 c) = selector_scan document sc1"
    using f b by (simp add: partial_boundaries_def then_scan_def)
  show ?thesis
  proof (cases isCSS)
    case True
    then have e: "exit sc1" by (simp add: sc1_def)
    from selector_scan_exit [OF e, of document] obtain sc2 where
      "selector_scan document sc1 = Some (Inr sc2)" "startPosition sc2 = startPosition sc1"
      by blast
    then show ?thesis using p True by (auto simp: sc1_def isCSS_def)
  next
    case False
    have "k0 \<le> length t" using k c by simp
    from selector_found [OF tl k(1) this, of sc1] sel sc0 False
    obtain sc2 where "selector_scan document sc1 = Some (Inr sc2)"
      "startPosition sc2 = Position 0 (k0 - 1)"
      by (auto simp: sc1_def unlimited_def)
    then show ?thesis using p False by (auto simp: isCSS_def)
  qed
qed

text \<open>
  Claim C6: the backward scan of \<^verbatim>\<open>parsePartialStylesheet\<close> takes the dialect from the
  document's language id. In a round that steps back onto a closing brace, the strict
  dialect (language id \<^verbatim>\<open>css\<close>) moves the reader forward by one character, sets the
  start of the block to that position, just after the brace, and ends the scan there: the
  backward scan returns the state of that round and the selector loop leaves its start as it
  is. Any other dialect adds one to the count of opening braces to find and scans on from
  the brace; a round that steps back onto an opening brace takes one from the count, in
  every dialect, and scans on. So on a line \<^verbatim>\<open>s{ .. { .. } ..\<close> with the cursor at its
  end, where \<^verbatim>\<open>s\<close> is the last character of a selector and the dots stand for plain
  characters, the strict dialect starts the block just after the closing brace, and every
  other dialect skips the nested block and the first opening brace and starts it at
  \<^verbatim>\<open>s\<close>; this is the start of the range that \<^verbatim>\<open>parsePartialStylesheet\<close> hands to the
  parser.
\<close>

theorem backward_scan_braces:
  "(unlimited document (sc_stream sc) \<and> backward_guard sc
      \<and> consumeLineCommentBackwards (languageId document = ''css'') document sc = Inr sc1
      \<and> backUp (sc_stream sc1) 1 = Inr (code, s2) \<longrightarrow>
      (code = Some closeBrace \<and> languageId document = ''css'' \<longrightarrow>
         (\<exists>sc'. backward_step True document position (limitPosition_of document position) sc = Inr sc'
            \<and> backward_scan document position sc = Some (Inr sc')
            \<and> exit sc'
            \<and> startPosition sc' = Position (line (sr_pos s2)) (character (sr_pos s2) + 1)
            \<and> sr_pos (sc_stream sc') = Position (line (sr_pos s2)) (character (sr_pos s2) + 1)
            \<and> openBracesToFind sc' = openBracesToFind sc
            \<and> (\<exists>sc''. selector_scan document sc' = Some (Inr sc'')
                  \<and> startPosition sc'' = Position (line (sr_pos s2)) (character (sr_pos s2) + 1))))
      \<and> (code = Some closeBrace \<and> languageId document \<noteq> ''css'' \<longrightarrow>
         (\<exists>sc'. backward_step False document position (limitPosition_of document position) sc = Inr sc'
            \<and> backward_scan document position sc = backward_scan document position sc'
            \<and> openBracesToFind sc' = openBracesToFind sc + 1
            \<and> sr_pos (sc_stream sc') = sr_pos s2 \<and> startPosition sc' = startPosition sc))
      \<and> (code = Some openBrace \<longrightarrow>
         (\<exists>sc'. backward_step (languageId document = ''css'') document position
                   (limitPosition_of document position) sc = Inr sc'
            \<and> backward_scan document position sc = backward_scan document position sc'
            \<and> openBracesToFind sc' = openBracesToFind sc - 1
            \<and> sr_pos (sc_stream sc') = sr_pos s2 \<and> startPosition sc' = startPosition sc)))
   \<and> (text_lines document = [t] \<and> c \<le> length t \<and> c \<le> 5000
        \<and> 0 < k0 \<and> k0 < k1 \<and> k1 < k2 \<and> k2 < c
        \<and> t ! k0 = CHR ''{'' \<and> t ! k1 = CHR ''{'' \<and> t ! k2 = CHR ''}''
        \<and> (\<forall>k. (k0 < k \<and> k < k1) \<or> (k1 < k \<and> k < k2) \<or> (k2 < k \<and> k < c)
               \<longrightarrow> plain_char (t ! k))
        \<and> plain_char (t ! (k0 - 1)) \<and> \<not> isWhitespace (Some (of_char (t ! (k0 - 1)))) \<longrightarrow>
        (\<exists>sc. partial_boundaries document (Position 0 c) = Some (Inr sc)
           \<and> startPosition sc = (if languageId document = ''css'' then Position 0 (k2 + 1)
                                 else Position 0 (k0 - 1))
           \<and> parsePartialStylesheet parseStylesheet document (Position 0 c)
               = (case parseStylesheet
                         (DocumentStreamReader document (Some (startPosition sc))
                            (Some (Range (startPosition sc) (endPosition sc)))) of
                    Inl e \<Rightarrow> Some (Inr None)
                  | Inr tree \<Rightarrow> Some (Inr (Some tree)))))"
proof (intro conjI impI)
  define isCSS where "isCSS = (languageId document = ''css'')"
  define limit where "limit = limitPosition_of document position"
  define ahead where "ahead = Position (line (sr_pos s2)) (character (sr_pos s2) + 1)"
  assume a: "unlimited document (sc_stream sc) \<and> backward_guard sc
      \<and> consumeLineCommentBackwards (languageId document = ''css'') document sc = Inr sc1
      \<and> backUp (sc_stream sc1) 1 = Inr (code, s2)"
  then have g: "backward_guard sc" by simp
  note r = backward_step_braces [of document sc isCSS sc1 code s2 ahead position limit,
      OF a [THEN conjunct1] a [THEN conjunct2, THEN conjunct2, THEN conjunct1, folded isCSS_def]
         a [THEN conjunct2, THEN conjunct2, THEN conjunct2] ahead_def]
  have go: "backward_scan document position sc = backward_scan document position sc'"
    if "backward_step isCSS document position limit sc = Inr sc'" for sc'
    using g that unfolding backward_scan_def isCSS_def [symmetric] limit_def [symmetric]
    by (subst backward_loop.simps) simp
  {
    assume h: "code = Some closeBrace \<and> languageId document = ''css''"
    then have css: "isCSS" by (simp add: isCSS_def)
    from r h css obtain sc' where
      s: "backward_step isCSS document position limit sc = Inr sc'"
      "exit sc'" "startPosition sc' = ahead" "sr_pos (sc_stream sc') = ahead"
      "openBracesToFind sc' = openBracesToFind sc"
      "backward_loop isCSS document position limit sc = Some (Inr sc')"
      "\<exists>sc''. selector_scan document sc' = Some (Inr sc'') \<and> startPosition sc'' = ahead"
      using g by blast
    have "backward_scan document position sc = Some (Inr sc')"
      using s(6) by (simp add: backward_scan_def isCSS_def limit_def)
    then show "\<exists>sc'. backward_step True document position (limitPosition_of document position) sc = Inr sc'
            \<and> backward_scan document position sc = Some (Inr sc')
            \<and> exit sc'
            \<and> startPosition sc' = Position (line (sr_pos s2)) (character (sr_pos s2) + 1)
            \<and> sr_pos (sc_stream sc') = Position (line (sr_pos s2)) (character (sr_pos s2) + 1)
            \<and> openBracesToFind sc' = openBracesToFind sc
            \<and> (\<exists>sc''. selector_scan document sc' = Some (Inr sc'')
                  \<and> startPosition sc'' = Position (line (sr_pos s2)) (character (sr_pos s2) + 1))"
      using s css unfolding ahead_def limit_def by auto
  }
  {
    assume h: "code = Some closeBrace \<and> languageId document \<noteq> ''css''"
    then have css: "\<not> isCSS" by (simp add: isCSS_def)
    from r h css obtain sc' where
      s: "backward_step isCSS document position limit sc = Inr sc'"
      "openBracesToFind sc' = openBracesToFind sc + 1"
      "sr_pos (sc_stream sc') = sr_pos s2" "startPosition sc' = startPosition sc"
      by blast
    then show "\<exists>sc'. backward_step False document position (limitPosition_of document position) sc = Inr sc'
            \<and> backward_scan document position sc = backward_scan document position sc'
            \<and> openBracesToFind sc' = openBracesToFind sc + 1
            \<and> sr_pos (sc_stream sc') = sr_pos s2 \<and> startPosition sc' = startPosition sc"
      using go [OF s(1)] css unfolding limit_def by auto
  }
  {
    assume h: "code = Some openBrace"
    from r h obtain sc' where
      s: "backward_step isCSS document position limit sc = Inr sc'"
      "openBracesToFind sc' = openBracesToFind sc - 1"
      "sr_pos (sc_stream sc') = sr_pos s2" "startPosition sc' = startPosition sc"
      by blast
    then show "\<exists>sc'. backward_step (languageId document = ''css'') document position
                   (limitPosition_of document position) sc = Inr sc'
            \<and> backward_scan document position sc = backward_scan document position sc'
            \<and> openBracesToFind sc' = openBracesToFind sc - 1
            \<and> sr_pos (sc_stream sc') = sr_pos s2 \<and> startPosition sc' = startPosition sc"
      using go [OF s(1)] unfolding limit_def isCSS_def by auto
  }
next
  assume a: "text_lines document = [t] \<and> c \<le> length t \<and> c \<le> 5000
        \<and> 0 < k0 \<and> k0 < k1 \<and> k1 < k2 \<and> k2 < c
        \<and> t ! k0 = CHR ''{'' \<and> t ! k1 = CHR ''{'' \<and> t ! k2 = CHR ''}''
        \<and> (\<forall>k. (k0 < k \<and> k < k1) \<or> (k1 < k \<and> k < k2) \<or> (k2 < k \<and> k < c)
               \<longrightarrow> plain_char (t ! k))
        \<and> plain_char (t ! (k0 - 1)) \<and> \<not> isWhitespace (Some (of_char (t ! (k0 - 1))))"
  then have h: "text_lines document = [t]" "c \<le> length t" "c \<le> 5000"
    "0 < k0" "k0 < k1" "k1 < k2" "k2 < c"
    "t ! k0 = CHR ''{''" "t ! k1 = CHR ''{''" "t ! k2 = CHR ''}''"
    "\<forall>k. (k0 < k \<and> k < k1) \<or> (k1 < k \<and> k < k2) \<or> (k2 < k \<and> k < c) \<longrightarrow> plain_char (t ! k)"
    "plain_char (t ! (k0 - 1))" "\<not> isWhitespace (Some (of_char (t ! (k0 - 1))))"
    by simp_all
  from nested_block_boundaries [OF h] obtain sc where
    sc: "partial_boundaries document (Position 0 c) = Some (Inr sc)"
    "startPosition sc = (if languageId document = ''css'' then Position 0 (k2 + 1)
                         else Position 0 (k0 - 1))" by blast
  have "parsePartialStylesheet parseStylesheet document (Position 0 c)
               = (case parseStylesheet
                         (DocumentStreamReader document (Some (startPosition sc))
                            (Some (Range (startPosition sc) (endPosition sc)))) of
                    Inl e \<Rightarrow> Some (Inr None)
                  | Inr tree \<Rightarrow> Some (Inr (Some tree)))"
    using sc(1) by (simp add: parsePartialStylesheet_def)
  with sc show "\<exists>sc. partial_boundaries document (Position 0 c) = Some (Inr sc)
           \<and> startPosition sc = (if languageId document = ''css'' then Position 0 (k2 + 1)
                                 else Position 0 (k0 - 1))
           \<and> parsePartialStylesheet parseStylesheet document (Position 0 c)
               = (case parseStylesheet
                         (DocumentStreamReader document (Some (startPosition sc))
                            (Some (Range (startPosition sc) (endPosition sc)))) of
                    Inl e \<Rightarrow> Some (Inr None)
                  | Inr tree \<Rightarrow> Some (Inr (Some tree)))"
    by blast
qed

lemma nested_text_plain:
  "(\<forall>k. ((2::nat) < k \<and> k < 4) \<or> (4 < k \<and> k < 6) \<or> (6 < k \<and> k < 8)
        \<longrightarrow> plain_char (''.a{b{c}d'' ! k))"
proof (intro allI impI)
  fix k :: nat
  assume "(2 < k \<and> k < 4) \<or> (4 < k \<and> k < 6) \<or> (6 < k \<and> k < 8)"
  then have "k = 3 \<or> k = 5 \<or> k = 7" by arith
  then show "plain_char (''.a{b{c}d'' ! k)" by (auto simp: plain_char_def)
qed

theorem backward_scan_braces_witness:
  "unlimited brace_document (sc_stream (scan_at brace_document (Position 0 4)))
   \<and> backward_guard (scan_at brace_document (Position 0 4))
   \<and> languageId brace_document = ''css''
   \<and> backUp (sc_stream (scan_at brace_document (Position 0 4))) 1
       = Inr (Some closeBrace, sc_stream (scan_at brace_document (Position 0 4))\<lparr>sr_pos := Position 0 3\<rparr>)
   \<and> (\<exists>sc'. backward_scan brace_document (Position 0 4) (scan_at brace_document (Position 0 4))
               = Some (Inr sc')
          \<and> exit sc' \<and> startPosition sc' = Position 0 4)
   \<and> languageId nested_document \<noteq> ''css''
   \<and> (\<exists>sc'. backward_scan nested_document (Position 0 6) (scan_at nested_document (Position 0 6))
               = backward_scan nested_document (Position 0 6) sc'
          \<and> openBracesToFind sc' = 2 \<and> sr_pos (sc_stream sc') = Position 0 5)
   \<and> (\<exists>sc. partial_boundaries nested_css_document (Position 0 8) = Some (Inr sc)
          \<and> startPosition sc = Position 0 7
          \<and> parsePartialStylesheet (\<lambda>s. Inl ParseFailure) nested_css_document (Position 0 8)
              = Some (Inr None))
   \<and> (\<exists>sc. partial_boundaries nested_scss_document (Position 0 8) = Some (Inr sc)
          \<and> startPosition sc = Position 0 1
          \<and> parsePartialStylesheet (\<lambda>s. Inl ParseFailure) nested_scss_document (Position 0 8)
              = Some (Inr None))
   \<and> (case partial_boundaries nested_css_document (Position 0 8) of
         Some (Inr sc) \<Rightarrow> startPosition sc = Position 0 7 \<and> endPosition sc = Position 0 8
       | _ \<Rightarrow> False)
   \<and> (case partial_boundaries nested_scss_document (Position 0 8) of
         Some (Inr sc) \<Rightarrow> startPosition sc = Position 0 1 \<and> endPosition sc = Position 0 8
       | _ \<Rightarrow> False)"
proof -
  let ?D = brace_document
  let ?S = "scan_at brace_document (Position 0 4)"
  let ?s2 = "sc_stream ?S\<lparr>sr_pos := Position 0 3\<rparr>"
  have a: "unlimited ?D (sc_stream ?S)" "backward_guard ?S" "languageId ?D = ''css''"
    "consumeLineCommentBackwards (languageId ?D = ''css'') ?D ?S = Inr ?S"
    "backUp (sc_stream ?S) 1 = Inr (Some closeBrace, ?s2)"
    "Position (line (sr_pos ?s2)) (character (sr_pos ?s2) + 1) = Position 0 4"
    by code_simp+
  note t1 = backward_scan_braces [where document = ?D and sc = ?S and ?sc1.0 = ?S
      and code = "Some closeBrace" and ?s2.0 = ?s2 and position = "Position 0 4", THEN conjunct1]
  from t1 a have strict: "\<exists>sc'. backward_scan ?D (Position 0 4) ?S = Some (Inr sc')
          \<and> exit sc' \<and> startPosition sc' = Position 0 4"
    by auto
  let ?E = nested_document
  let ?T = "scan_at nested_document (Position 0 6)"
  let ?t2 = "sc_stream ?T\<lparr>sr_pos := Position 0 5\<rparr>"
  have b: "unlimited ?E (sc_stream ?T)" "backward_guard ?T" "languageId ?E \<noteq> ''css''"
    "consumeLineCommentBackwards (languageId ?E = ''css'') ?E ?T = Inr ?T"
    "backUp (sc_stream ?T) 1 = Inr (Some closeBrace, ?t2)"
    "openBracesToFind ?T = 1" "sr_pos ?t2 = Position 0 5"
    by code_simp+
  note t2 = backward_scan_braces [where document = ?E and sc = ?T and ?sc1.0 = ?T
      and code = "Some closeBrace" and ?s2.0 = ?t2 and position = "Position 0 6", THEN conjunct1]
  from t2 b have lenient: "\<exists>sc'. backward_scan ?E (Position 0 6) ?T
               = backward_scan ?E (Position 0 6) sc'
          \<and> openBracesToFind sc' = 2 \<and> sr_pos (sc_stream sc') = Position 0 5"
    by auto
  have shape: "(8::nat) \<le> length ''.a{b{c}d''" "(8::nat) \<le> 5000"
    "''.a{b{c}d'' ! 2 = CHR ''{''" "''.a{b{c}d'' ! 4 = CHR ''{''" "''.a{b{c}d'' ! 6 = CHR ''}''"
    "plain_char (''.a{b{c}d'' ! (2 - 1))"
    "\<not> isWhitespace (Some (of_char (''.a{b{c}d'' ! (2 - 1))))"
    by (simp_all add: plain_char_def isWhitespace_def)
  have lines: "text_lines nested_css_document = [''.a{b{c}d'']"
    "text_lines nested_scss_document = [''.a{b{c}d'']"
    "languageId nested_css_document = ''css''" "languageId nested_scss_document \<noteq> ''css''"
    by (simp_all add: nested_css_document_def nested_scss_document_def css_document_def
        scss_document_def text_lines_def)
  note t3 = backward_scan_braces [where document = nested_css_document and t = "''.a{b{c}d''"
      and c = 8 and ?k0.0 = 2 and ?k1.0 = 4 and ?k2.0 = 6
      and parseStylesheet = "\<lambda>s. Inl ParseFailure", THEN conjunct2]
  from t3 shape lines nested_text_plain
  have css: "\<exists>sc. partial_boundaries nested_css_document (Position 0 8) = Some (Inr sc)
          \<and> startPosition sc = Position 0 7
          \<and> parsePartialStylesheet (\<lambda>s. Inl ParseFailure) nested_css_document (Position 0 8)
              = Some (Inr None)"
    by simp
  note t4 = backward_scan_braces [where document = nested_scss_document and t = "''.a{b{c}d''"
      and c = 8 and ?k0.0 = 2 and ?k1.0 = 4 and ?k2.0 = 6
      and parseStylesheet = "\<lambda>s. Inl ParseFailure", THEN conjunct2]
  from t4 shape lines nested_text_plain
  have scss: "\<exists>sc. partial_boundaries nested_scss_document (Position 0 8) = Some (Inr sc)
          \<and> startPosition sc = Position 0 1
          \<and> parsePartialStylesheet (\<lambda>s. Inl ParseFailure) nested_scss_document (Position 0 8)
              = Some (Inr None)"
    by simp
  have run: "case partial_boundaries nested_css_document (Position 0 8) of
         Some (Inr sc) \<Rightarrow> startPosition sc = Position 0 7 \<and> endPosition sc = Position 0 8
       | _ \<Rightarrow> False"
    "case partial_boundaries nested_scss_document (Position 0 8) of
         Some (Inr sc) \<Rightarrow> startPosition sc = Position 0 1 \<and> endPosition sc = Position 0 8
       | _ \<Rightarrow> False"
    by code_simp+
  from a(1,2,3,5) strict b(3) lenient css scss run show ?thesis by (intro conjI)
qed

section \<open>The end of the block\<close>

lemma indexOf_from_shift:
  "indexOf_from t n i = map_option (\<lambda>j. j + i) (indexOf_from t n 0)"
proof (induction t arbitrary: i)
  case Nil
  then show ?case by simp
next
  case (Cons c cs)
  show ?case
    using Cons.IH [of "Suc i"] Cons.IH [of "Suc 0"]
    by (simp add: option.map_comp comp_def)
qed

lemma indexOf_Cons:
  "indexOf (c # cs) n
     = (if take (length n) (c # cs) = n then Some 0
        else map_option Suc (indexOf cs n))"
  using indexOf_from_shift [of cs n "Suc 0"] by (simp add: indexOf_def)

lemma indexOf_Nil: "indexOf [] [a, b] = None"
  by (simp add: indexOf_def)

lemma indexOf_Cons2:
  "indexOf (c # cs) [a, b]
     = (if c = a \<and> cs \<noteq> [] \<and> hd cs = b then Some 0
        else map_option Suc (indexOf cs [a, b]))"
  by (cases cs) (auto simp: indexOf_Cons)

lemma indexOf_bound: "indexOf t [a, b] = Some i \<Longrightarrow> i + 2 \<le> length t"
proof (induction t arbitrary: i)
  case Nil
  then show ?case by (simp add: indexOf_Nil)
next
  case (Cons c cs)
  show ?case
  proof (cases "c = a \<and> cs \<noteq> [] \<and> hd cs = b")
    case True
    then have "i = 0" using Cons.prems by (simp add: indexOf_Cons2)
    moreover have "1 \<le> length cs" using True by (cases cs) simp_all
    ultimately show ?thesis by simp
  next
    case False
    then obtain j where "indexOf cs [a, b] = Some j" "i = Suc j"
      using Cons.prems by (auto simp: indexOf_Cons2)
    then show ?thesis using Cons.IH [of j] by simp
  qed
qed

lemma indexOf_append_found:
  "indexOf xs [a, b] = Some i \<Longrightarrow> indexOf (xs @ ys) [a, b] = Some i"
proof (induction xs arbitrary: i)
  case Nil
  then show ?case by (simp add: indexOf_Nil)
next
  case (Cons x xs)
  show ?case
  proof (cases "x = a \<and> xs \<noteq> [] \<and> hd xs = b")
    case True
    then show ?thesis using Cons.prems by (simp add: indexOf_Cons2)
  next
    case False
    then obtain j where j: "indexOf xs [a, b] = Some j" "i = Suc j"
      using Cons.prems by (auto simp: indexOf_Cons2)
    then have "xs \<noteq> []" by (auto simp: indexOf_Nil)
    then show ?thesis using False j Cons.IH [of j] by (simp add: indexOf_Cons2)
  qed
qed

lemma indexOf_append_none:
  "indexOf xs [a, b] = None \<Longrightarrow> ys = [] \<or> hd ys \<noteq> b \<Longrightarrow>
   indexOf (xs @ ys) [a, b] = map_option (\<lambda>j. length xs + j) (indexOf ys [a, b])"
proof (induction xs)
  case Nil
  then show ?case by (simp add: option.map_ident)
next
  case (Cons x xs)
  have no: "\<not> (x = a \<and> xs \<noteq> [] \<and> hd xs = b)" and rest: "indexOf xs [a, b] = None"
    using Cons.prems(1) by (auto simp: indexOf_Cons2 split: if_splits)
  have "\<not> (x = a \<and> xs @ ys \<noteq> [] \<and> hd (xs @ ys) = b)"
    using no Cons.prems(2) by (cases xs) auto
  then have "indexOf (x # (xs @ ys)) [a, b] = map_option Suc (indexOf (xs @ ys) [a, b])"
    by (simp only: indexOf_Cons2 if_False)
  then show ?case
    using Cons.IH [OF rest Cons.prems(2)]
    by (simp add: option.map_comp comp_def)
qed

lemma indexOf_skip:
  "a \<notin> set e \<Longrightarrow> indexOf (e @ zs) [a, b] = map_option (\<lambda>j. length e + j) (indexOf zs [a, b])"
proof (induction e)
  case Nil
  then show ?case by (simp add: option.map_ident)
next
  case (Cons x e)
  then have "x \<noteq> a" by auto
  then have "indexOf (x # (e @ zs)) [a, b] = map_option Suc (indexOf (e @ zs) [a, b])"
    by (simp add: indexOf_Cons2)
  then show ?case using Cons by (simp add: option.map_comp comp_def)
qed

lemma join_lines_Cons:
  "join_lines e (t # ts) = t @ (if ts = [] then [] else e @ join_lines e ts)"
  by (cases ts) simp_all

lemma positionAt_lines_here:
  "off \<le> length t \<Longrightarrow> positionAt_lines (t # ts) (Suc n) i off = Position i off"
  by (cases ts) simp_all

lemma positionAt_lines_next:
  "ts \<noteq> [] \<Longrightarrow> positionAt_lines (t # ts) n i (length t + n + off) = positionAt_lines ts n (Suc i) off"
  by (cases ts) simp_all

lemma find_in_lines_flat:
  assumes e: "e \<noteq> []" "CHR ''*'' \<notin> set e" "hd e \<noteq> CHR ''/''"
  shows "ls \<noteq> [] \<Longrightarrow> c \<le> length (hd ls) \<Longrightarrow>
         find_in_lines ls l c
           = map_option (\<lambda>off. positionAt_lines ls (length e) l (c + off + 2))
               (indexOf (drop c (join_lines e ls)) ''*/'')"
proof (induction ls arbitrary: l c)
  case Nil
  then show ?case by simp
next
  case (Cons t ts)
  define tail where "tail = (if ts = [] then [] else e @ join_lines e ts)"
  have c: "c \<le> length t" using Cons.prems(2) by simp
  have flat: "drop c (join_lines e (t # ts)) = drop c t @ tail"
    using c by (simp add: join_lines_Cons tail_def)
  obtain n where n: "length e = Suc n" using e(1) by (cases e) simp_all
  show ?case
  proof (cases "indexOf (drop c t) ''*/''")
    case (Some i)
    have "i + 2 \<le> length (drop c t)" using indexOf_bound [OF Some] .
    then have "c + i + 2 \<le> length t" by simp
    then have "positionAt_lines (t # ts) (length e) l (c + i + 2) = Position l (c + i + 2)"
      unfolding n by (rule positionAt_lines_here)
    moreover have "indexOf (drop c t @ tail) ''*/'' = Some i"
      using Some by (rule indexOf_append_found)
    ultimately show ?thesis using Some flat by simp
  next
    case None
    have boundary: "tail = [] \<or> hd tail \<noteq> CHR ''/''"
      using e by (simp add: tail_def)
    have split: "indexOf (drop c t @ tail) ''*/''
                   = map_option (\<lambda>j. length (drop c t) + j) (indexOf tail ''*/'')"
      using None boundary by (rule indexOf_append_none)
    show ?thesis
    proof (cases "ts = []")
      case True
      then have "tail = []" by (simp add: tail_def)
      then show ?thesis using None split flat True by (simp add: indexOf_Nil)
    next
      case False
      then have hd_ok: "0 \<le> length (hd ts)" by simp
      have tail: "tail = e @ join_lines e ts" using False by (simp add: tail_def)
      have skip: "indexOf tail ''*/'' = map_option (\<lambda>j. length e + j) (indexOf (join_lines e ts) ''*/'')"
        unfolding tail using e(2) by (rule indexOf_skip)
      have ih: "find_in_lines ts (Suc l) 0
                  = map_option (\<lambda>off. positionAt_lines ts (length e) (Suc l) (0 + off + 2))
                      (indexOf (drop 0 (join_lines e ts)) ''*/'')"
        using False hd_ok by (rule Cons.IH)
      have pos: "positionAt_lines (t # ts) (length e) l (c + (length (drop c t) + (length e + j)) + 2)
                   = positionAt_lines ts (length e) (Suc l) (0 + j + 2)" for j
      proof -
        have "c + (length (drop c t) + (length e + j)) + 2 = length t + length e + (0 + j + 2)"
          using c by simp
        then show ?thesis using positionAt_lines_next [OF False, of t "length e" l "0 + j + 2"]
          by (simp only:)
      qed
      have lhs: "find_in_lines (t # ts) l c = find_in_lines ts (Suc l) 0"
        using None by simp
      have "map_option (\<lambda>off. positionAt_lines (t # ts) (length e) l (c + off + 2))
              (indexOf (drop c (join_lines e (t # ts))) ''*/'')
            = map_option
                (\<lambda>j. positionAt_lines (t # ts) (length e) l
                       (c + (length (drop c t) + (length e + j)) + 2))
                (indexOf (join_lines e ts) ''*/'')"
        by (simp only: flat split skip option.map_comp comp_def)
      also have "\<dots> = map_option (\<lambda>j. positionAt_lines ts (length e) (Suc l) (0 + j + 2))
                          (indexOf (join_lines e ts) ''*/'')"
        by (simp only: pos)
      also have "\<dots> = find_in_lines ts (Suc l) 0"
        using ih by simp
      finally show ?thesis using lhs by simp
    qed
  qed
qed

lemma drop_line_start:
  "l < length ls \<Longrightarrow>
   drop (sum_list (map (\<lambda>t. length t + length e) (take l ls))) (join_lines e ls)
     = join_lines e (drop l ls)"
proof (induction ls arbitrary: l)
  case Nil
  then show ?case by simp
next
  case (Cons t ts)
  show ?case
  proof (cases l)
    case 0
    then show ?thesis by simp
  next
    case (Suc k)
    then have k: "k < length ts" using Cons.prems by simp
    then have "ts \<noteq> []" by auto
    then show ?thesis using Cons.IH [OF k] Suc by (simp add: join_lines_Cons)
  qed
qed

lemma positionAt_lines_drop:
  "l < length ls \<Longrightarrow>
   positionAt_lines ls n i (sum_list (map (\<lambda>t. length t + n) (take l ls)) + off)
     = positionAt_lines (drop l ls) n (i + l) off"
proof (induction ls arbitrary: l i)
  case Nil
  then show ?case by simp
next
  case (Cons t ts)
  show ?case
  proof (cases l)
    case 0
    then show ?thesis by simp
  next
    case (Suc k)
    then have k: "k < length ts" using Cons.prems by simp
    then have ne: "ts \<noteq> []" by auto
    have "positionAt_lines (t # ts) n i
            (length t + n + (sum_list (map (\<lambda>t. length t + n) (take k ts)) + off))
          = positionAt_lines ts n (Suc i) (sum_list (map (\<lambda>t. length t + n) (take k ts)) + off)"
      using ne by (rule positionAt_lines_next)
    then show ?thesis using Cons.IH [OF k, of "Suc i"] Suc by (simp add: add.assoc)
  qed
qed

lemma length_join_lines:
  "ls \<noteq> [] \<Longrightarrow>
   length (join_lines e ls)
     = sum_list (map (\<lambda>t. length t + length e) (take (length ls - 1) ls)) + length (last ls)"
proof (induction ls)
  case Nil
  then show ?case by simp
next
  case (Cons t ts)
  show ?case
  proof (cases "ts = []")
    case True
    then show ?thesis by simp
  next
    case False
    then obtain u us where "ts = u # us" by (cases ts) auto
    then show ?thesis using Cons.IH False by simp
  qed
qed

lemma offsetAt_valid:
  "valid_position document p \<Longrightarrow> offsetAt document p = line_start document (line p) + character p"
  by (simp add: offsetAt_def validatePosition_valid Let_def)

lemma offsetAt_document_end:
  "offsetAt document (document_end document) = length (full_text document)"
proof -
  have ne: "text_lines document \<noteq> []"
    using lineCount_pos [of document] by (auto simp: lineCount_def)
  have "last (text_lines document) = text_lines document ! (lineCount document - 1)"
    using ne by (simp add: last_conv_nth lineCount_def)
  moreover have "offsetAt document (document_end document)
                   = line_start document (lineCount document - 1)
                     + length (text_lines document ! (lineCount document - 1))"
    using offsetAt_valid [OF document_end_valid, of document]
    by (simp add: document_end_def Position_def)
  ultimately show ?thesis
    using length_join_lines [OF ne, of "eol_text (eol document)"]
    by (simp add: line_start_def full_text_def eol_length_def lineCount_def)
qed

lemma valid_before_end:
  "valid_position document p \<Longrightarrow> \<not> isBefore (document_end document) p"
  by (auto simp: valid_position_def document_end_def Position_def position_iffs)

lemma getText_to_end:
  assumes "valid_position document p"
  shows "getText document (Range p (document_end document))
           = drop (character p) (join_lines (eol_text (eol document))
                                   (drop (line p) (text_lines document)))"
proof -
  have l: "line p < length (text_lines document)"
    using assms by (simp add: valid_position_def lineCount_def)
  have "getText document (Range p (document_end document))
          = drop (offsetAt document p) (full_text document)"
    using valid_before_end [OF assms]
    by (simp add: getText_def Range_def Let_def offsetAt_document_end)
  also have "\<dots> = drop (character p)
                     (drop (line_start document (line p)) (full_text document))"
    by (simp add: offsetAt_valid [OF assms] add.commute)
  also have "drop (line_start document (line p)) (full_text document)
               = join_lines (eol_text (eol document)) (drop (line p) (text_lines document))"
    unfolding line_start_def full_text_def eol_length_def using l by (rule drop_line_start)
  finally show ?thesis .
qed

lemma eol_text_plain:
  "eol_text e \<noteq> []" "CHR ''*'' \<notin> set (eol_text e)" "hd (eol_text e) \<noteq> CHR ''/''"
  by (cases e; simp add: eol_text_def)+

lemma findClosingCommentAfterPosition_lines:
  assumes "valid_position document p"
  shows "findClosingCommentAfterPosition document p
           = find_in_lines (drop (line p) (text_lines document)) (line p) (character p)"
proof -
  define e where "e = eol_text (eol document)"
  define ls where "ls = drop (line p) (text_lines document)"
  have l: "line p < length (text_lines document)"
    using assms by (simp add: valid_position_def lineCount_def)
  then have ne: "ls \<noteq> []" by (simp add: ls_def)
  have "hd ls = text_lines document ! line p"
    using l by (simp add: ls_def hd_drop_conv_nth)
  then have c: "character p \<le> length (hd ls)"
    using assms by (simp add: valid_position_def)
  have pos: "positionAt document (int (off + 2 + offsetAt document p))
               = positionAt_lines ls (length e) (line p) (character p + off + 2)" for off
  proof -
    have "off + 2 + offsetAt document p
            = sum_list (map (\<lambda>t. length t + length e) (take (line p) (text_lines document)))
              + (character p + off + 2)"
      by (simp add: offsetAt_valid [OF assms] line_start_def eol_length_def e_def)
    moreover have "nat (max 0 (int (off + 2 + offsetAt document p)))
                     = off + 2 + offsetAt document p"
      by simp
    ultimately have "positionAt document (int (off + 2 + offsetAt document p))
                       = positionAt_lines (text_lines document) (length e) 0
                           (sum_list (map (\<lambda>t. length t + length e)
                                        (take (line p) (text_lines document)))
                            + (character p + off + 2))"
      unfolding positionAt_def eol_length_def e_def by (simp only:)
    then show ?thesis
      using positionAt_lines_drop [OF l, of "length e" 0 "character p + off + 2"]
      by (simp only: ls_def add_0)
  qed
  have "findClosingCommentAfterPosition document p
          = map_option (\<lambda>off. positionAt_lines ls (length e) (line p) (character p + off + 2))
              (indexOf (drop (character p) (join_lines e ls)) ''*/'')"
    unfolding findClosingCommentAfterPosition_def getText_to_end [OF assms] pos
      e_def [symmetric] ls_def [symmetric]
    by (cases "indexOf (drop (character p) (join_lines e ls)) ''*/''") simp_all
  also have "\<dots> = find_in_lines ls (line p) (character p)"
    using find_in_lines_flat [OF eol_text_plain [of "eol document", folded e_def] ne c] by simp
  finally show ?thesis by (simp add: ls_def)
qed

lemma text_at_two:
  "text_at document p [a, b]
     \<longleftrightarrow> in_line document p \<and> in_line document (Position (line p) (character p + 1))
         \<and> text_lines document ! line p ! character p = a
         \<and> text_lines document ! line p ! (character p + 1) = b"
proof -
  define t where "t = text_lines document ! line p"
  define c where "c = character p"
  have "take (length [a, b]) (drop c t) = [a, b] \<longleftrightarrow> c + 1 < length t \<and> t ! c = a \<and> t ! (c + 1) = b"
  proof (cases "c + 1 < length t")
    case True
    then have "drop c t = t ! c # t ! (c + 1) # drop (c + 2) t"
      by (simp add: Cons_nth_drop_Suc)
    then show ?thesis using True by simp
  next
    case False
    then have "length (take (length [a, b]) (drop c t)) \<noteq> length [a, b]" by simp
    then have "take (length [a, b]) (drop c t) \<noteq> [a, b]" by metis
    then show ?thesis using False by simp
  qed
  then have "text_at document p [a, b]
     \<longleftrightarrow> line p < lineCount document \<and> c + 1 < length t \<and> t ! c = a \<and> t ! (c + 1) = b"
    unfolding text_at_def t_def c_def by blast
  then show ?thesis
    unfolding in_line_def t_def c_def by (auto simp: Position_def)
qed

lemma char_code:
  "(of_char ch :: nat) = slash \<longleftrightarrow> ch = CHR ''/''"
  "(of_char ch :: nat) = star \<longleftrightarrow> ch = CHR ''*''"
  "(of_char ch :: nat) = closeBrace \<longleftrightarrow> ch = CHR ''}''"
proof -
  have "(of_char ch :: nat) = of_char CHR ''/'' \<longleftrightarrow> ch = CHR ''/''"
    "(of_char ch :: nat) = of_char CHR ''*'' \<longleftrightarrow> ch = CHR ''*''"
    "(of_char ch :: nat) = of_char CHR ''}'' \<longleftrightarrow> ch = CHR ''}''"
    by (simp_all only: of_char_eq_iff)
  then show "(of_char ch :: nat) = slash \<longleftrightarrow> ch = CHR ''/''"
    "(of_char ch :: nat) = star \<longleftrightarrow> ch = CHR ''*''"
    "(of_char ch :: nat) = closeBrace \<longleftrightarrow> ch = CHR ''}''"
    by (simp_all add: slash_def star_def closeBrace_def)
qed

lemma peek_some:
  assumes "unlimited document s" and "code \<noteq> 10" and "code \<noteq> 13"
  shows "peek s = Inr (Some code)
           \<longleftrightarrow> in_line document (sr_pos s) \<and> code_at document (sr_pos s) = code"
proof
  assume "peek s = Inr (Some code)"
  from peek_code_in_line [OF assms(1) this assms(2,3)]
  show "in_line document (sr_pos s) \<and> code_at document (sr_pos s) = code"
    by (simp add: code_at_def)
next
  assume "in_line document (sr_pos s) \<and> code_at document (sr_pos s) = code"
  then show "peek s = Inr (Some code)" using peek_in_line [OF assms(1)] by simp
qed

lemma eat_position:
  assumes "unlimited document s" and "code \<noteq> 10" and "code \<noteq> 13"
  shows "eat s code =
           (if in_line document (sr_pos s) \<and> code_at document (sr_pos s) = code
            then Inr (True, s\<lparr>sr_pos := Position (line (sr_pos s)) (character (sr_pos s) + 1)\<rparr>)
            else Inr (False, s))"
proof (cases "in_line document (sr_pos s)")
  case True
  then show ?thesis using eat_in_line [OF assms(1) True] by simp
next
  case False
  then have "peek s \<noteq> Inr (Some code)" using peek_some [OF assms] by simp
  moreover obtain c where "peek s = Inr c" using assms(1) by (simp add: peek_unlimited)
  ultimately show ?thesis using False by (simp add: eat_def)
qed

lemma next_char_position:
  assumes u: "unlimited document s" and ne: "\<not> eof s"
  shows "\<exists>c. next_char s = Inr (c, s\<lparr>sr_pos := next_position document (sr_pos s)\<rparr>)"
proof (cases "in_line document (sr_pos s)")
  case True
  then show ?thesis using next_char_in_line [OF u True] by (simp add: next_position_def)
next
  case False
  define p where "p = sr_pos s"
  define t where "t = text_lines document ! line p"
  have l: "line p < lineCount document" using not_eof_line [OF u ne] by (simp add: p_def)
  have ge: "length t \<le> character p" using False l by (simp add: in_line_def p_def t_def)
  have before: "isBefore p (document_end document)"
    using u ne by (simp add: eof_def unlimited_def isAfterOrEqual_def p_def)
  then have lt: "line p < lineCount document - 1"
    using ge by (auto simp: document_end_def position_iffs t_def)
  define s0 where "s0 = s\<lparr>sr_pos := Position (line p + 1) 0\<rparr>"
  have u0: "unlimited document s0" using u by (simp add: s0_def unlimited_def)
  have "restrict_to_eof s0 = s0"
  proof (cases "eof s0")
    case True
    then have "isAfterOrEqual (Position (line p + 1) 0) (document_end document)"
      using u0 by (simp add: eof_def unlimited_def s0_def)
    then have "Position (line p + 1) 0 = document_end document"
      using lt by (auto simp: document_end_def position_iffs)
    then show ?thesis using u0 True by (simp add: restrict_to_eof_unlimited s0_def)
  next
    case False
    then show ?thesis using u0 by (simp add: restrict_to_eof_unlimited)
  qed
  then have "next_char s = Inr (char_code_at_pos document t (character p), s0)"
    using u ne l ge
    by (simp add: next_char_def lineAt_valid unlimited_def Let_def s0_def p_def t_def)
  then show ?thesis using False by (auto simp: next_position_def s0_def p_def)
qed

lemma after_comment_code:
  "valid_position document p \<Longrightarrow>
   (case findClosingCommentAfterPosition document p of
      Some q \<Rightarrow> q
    | None \<Rightarrow> document_end document) = after_comment document p"
  by (simp add: after_comment_def findClosingCommentAfterPosition_lines)

lemma in_line_next_valid:
  "in_line document p \<Longrightarrow> valid_position document (Position (line p) (character p + 1))"
  by (simp add: in_line_def valid_position_def Position_def)

lemma text_at_codes:
  "text_at document p [a, b]
     \<longleftrightarrow> in_line document p \<and> in_line document (Position (line p) (character p + 1))
         \<and> code_at document p = of_char a
         \<and> code_at document (Position (line p) (character p + 1)) = of_char b"
  by (simp add: text_at_two code_at_def Position_def)

lemma text_at_block:
  "text_at document p ''/*''
     \<longleftrightarrow> in_line document p \<and> in_line document (Position (line p) (character p + 1))
         \<and> code_at document p = slash
         \<and> code_at document (Position (line p) (character p + 1)) = star"
  by (simp add: text_at_codes slash_def star_def)

lemma text_at_line:
  "text_at document p ''//''
     \<longleftrightarrow> in_line document p \<and> in_line document (Position (line p) (character p + 1))
         \<and> code_at document p = slash
         \<and> code_at document (Position (line p) (character p + 1)) = slash"
  by (simp add: text_at_codes slash_def)

lemma in_line_not_stop:
  "in_line document p \<Longrightarrow> code_at document p \<noteq> closeBrace \<Longrightarrow> \<not> scan_stops document p"
  using in_line_before_end [of document p]
  by (simp add: scan_stops_def isAfterOrEqual_def)

lemma forward_round_target:
  assumes u: "unlimited document s" and ne: "\<not> eof s"
    and nb: "\<not> (in_line document (sr_pos s) \<and> code_at document (sr_pos s) = closeBrace)"
  shows "\<exists>q. forward_round (languageId document = ''css'') document (document_end document) s
               = Again (s\<lparr>sr_pos := q\<rparr>)
            \<and> (q = skip_from document (sr_pos s)
               \<or> (q = skip_from document (skip_from document (sr_pos s))
                   \<and> \<not> scan_stops document (skip_from document (sr_pos s))))"
proof -
  define isCSS where "isCSS = (languageId document = ''css'')"
  define p where "p = sr_pos s"
  define p1 where "p1 = Position (line p) (character p + 1)"
  define p2 where "p2 = Position (line p) (character p + 2)"
  define p3 where "p3 = Position (line p) (character p + 3)"
  define s1 where "s1 = s\<lparr>sr_pos := p1\<rparr>"
  define s2 where "s2 = s\<lparr>sr_pos := p2\<rparr>"
  define s3 where "s3 = s\<lparr>sr_pos := p3\<rparr>"
  have us: "unlimited document s1" "unlimited document s2" "unlimited document s3"
    using u by (simp_all add: s1_def s2_def s3_def unlimited_def)
  have step: "Position (line p1) (character p1 + 1) = p2" "Position (line p2) (character p2 + 1) = p3"
    "Position (line p1) (character p1 + 2) = p3" "line p1 = line p" "line p2 = line p"
    by (simp_all add: p1_def p2_def p3_def Position_def)
  have e0: "eat s closeBrace = Inr (False, s)"
    using nb by (simp add: eat_position [OF u] closeBrace_def)
  have eats: "eat s slash = (if in_line document p \<and> code_at document p = slash
                             then Inr (True, s1) else Inr (False, s))"
    by (simp add: eat_position [OF u] slash_def s1_def p1_def p_def)
  have eat1: "eat s1 c = (if in_line document p1 \<and> code_at document p1 = c
                           then Inr (True, s2) else Inr (False, s1))"
    if "c \<noteq> 10" "c \<noteq> 13" for c
    using eat_position [OF us(1) that] step by (simp add: s1_def s2_def)
  have eat2: "eat s2 c = (if in_line document p2 \<and> code_at document p2 = c
                           then Inr (True, s3) else Inr (False, s2))"
    if "c \<noteq> 10" "c \<noteq> 13" for c
    using eat_position [OF us(2) that] step by (simp add: s2_def s3_def)
  have pk: "peek s = Inr (Some slash) \<longleftrightarrow> in_line document p \<and> code_at document p = slash"
    using peek_some [OF u, of slash] by (simp add: slash_def p_def)
  obtain c0 where pk0: "peek s = Inr c0" using u by (simp add: peek_unlimited)
  have ta: "text_at document p ''/*''
              \<longleftrightarrow> in_line document p \<and> in_line document p1 \<and> code_at document p = slash
                  \<and> code_at document p1 = star"
    "text_at document p ''//''
              \<longleftrightarrow> in_line document p \<and> in_line document p1 \<and> code_at document p = slash
                  \<and> code_at document p1 = slash"
    "text_at document p1 ''/*''
              \<longleftrightarrow> in_line document p1 \<and> in_line document p2 \<and> code_at document p1 = slash
                  \<and> code_at document p2 = star"
    "text_at document p1 ''//''
              \<longleftrightarrow> in_line document p1 \<and> in_line document p2 \<and> code_at document p1 = slash
                  \<and> code_at document p2 = slash"
    using text_at_block [of document p] text_at_line [of document p]
      text_at_block [of document p1] text_at_line [of document p1]
    by (simp_all add: p1_def p2_def Position_def)
  have ss: "slash \<noteq> star" "slash \<noteq> closeBrace" "slash \<noteq> 10" "slash \<noteq> 13" "star \<noteq> 10" "star \<noteq> 13"
    by (simp_all add: slash_def star_def closeBrace_def)
  show ?thesis
  proof (cases "in_line document p \<and> code_at document p = slash")
    case False
    then have np: "peek s \<noteq> Inr (Some slash)" using pk by simp
    from next_char_position [OF u ne] obtain c where
      nx: "next_char s = Inr (c, s\<lparr>sr_pos := next_position document p\<rparr>)" by (auto simp: p_def)
    have "forward_round isCSS document (document_end document) s
            = Again (s\<lparr>sr_pos := next_position document p\<rparr>)"
      using ne e0 pk0 np nx by (simp add: forward_round_def)
    moreover have "skip_from document p = next_position document p"
      using False ta by (auto simp: skip_from_def)
    ultimately show ?thesis unfolding isCSS_def p_def by auto
  next
    case sl: True
    then have pks: "peek s = Inr (Some slash)" using pk by simp
    have np: "next_position document p = p1" using sl by (simp add: next_position_def p1_def)
    have fr: "forward_round isCSS document (document_end document) s
                = (case consumeCommentForwards isCSS document (document_end document) s of
                     Inl e \<Rightarrow> Raised e | Inr s' \<Rightarrow> Again s')"
      using ne e0 pks by (simp add: forward_round_def)
    show ?thesis
    proof (cases "in_line document p1 \<and> code_at document p1 = slash")
      case two: True
      then have il1: "in_line document p1" and c1: "code_at document p1 = slash" by simp_all
      have np1: "next_position document p1 = p2"
        using il1 step by (simp add: next_position_def)
      show ?thesis
      proof (cases isCSS)
        case False
        have "consumeCommentForwards isCSS document (document_end document) s
                = Inr (s\<lparr>sr_pos := Position (line p + 1) 0\<rparr>)"
          using sl two False eats eat1 [of slash] ss step
          by (simp add: consumeCommentForwards_def s2_def)
        moreover have "skip_from document p = Position (line p + 1) 0"
          using sl two False ta ss by (simp add: skip_from_def isCSS_def)
        ultimately show ?thesis using fr unfolding isCSS_def p_def by auto
      next
        case css: True
        have sk: "skip_from document p = p1"
          using sl two css ta ss np by (simp add: skip_from_def isCSS_def)
        have ns: "\<not> scan_stops document p1"
          using il1 c1 ss by (intro in_line_not_stop) simp_all
        show ?thesis
        proof (cases "in_line document p2 \<and> code_at document p2 = star")
          case True
          have "consumeCommentForwards isCSS document (document_end document) s
                  = Inr (s\<lparr>sr_pos := after_comment document p3\<rparr>)"
            using sl two css True eats eat1 [of slash] eat2 [of star] ss
              after_comment_code [OF in_line_next_valid [of document p2]] step
            by (simp add: consumeCommentForwards_def s3_def)
          moreover have "skip_from document p1 = after_comment document p3"
            using two True ta step by (simp add: skip_from_def)
          ultimately show ?thesis using fr sk ns unfolding isCSS_def p_def by auto
        next
          case False
          have "consumeCommentForwards isCSS document (document_end document) s = Inr s2"
            using sl two css False eats eat1 [of slash] eat2 [of star] ss
            by (auto simp: consumeCommentForwards_def)
          moreover have "skip_from document p1 = p2"
            using two False css ta np1 by (auto simp: skip_from_def isCSS_def)
          ultimately show ?thesis using fr sk ns unfolding isCSS_def p_def s2_def by auto
        qed
      qed
    next
      case one: False
      have e1: "eat s1 slash = Inr (False, s1)" using one eat1 [of slash] ss by simp
      show ?thesis
      proof (cases "in_line document p1 \<and> code_at document p1 = star")
        case True
        have "consumeCommentForwards isCSS document (document_end document) s
                = Inr (s\<lparr>sr_pos := after_comment document p2\<rparr>)"
          using sl True eats e1 eat1 [of star] ss
            after_comment_code [OF in_line_next_valid [of document p1]] step
          by (simp add: consumeCommentForwards_def s2_def)
        moreover have "skip_from document p = after_comment document p2"
          using sl True ta by (simp add: skip_from_def p2_def)
        ultimately show ?thesis using fr unfolding isCSS_def p_def by auto
      next
        case False
        have "consumeCommentForwards isCSS document (document_end document) s = Inr s1"
          using sl False eats e1 eat1 [of star] ss
          by (auto simp: consumeCommentForwards_def)
        moreover have "skip_from document p = p1"
          using sl one False ta np by (auto simp: skip_from_def)
        ultimately show ?thesis using fr unfolding isCSS_def p_def s1_def by auto
      qed
    qed
  qed
qed

lemma forward_scan_visits:
  "\<exists>sc n. forward_scan document position = Some (Inr sc)
     \<and> (\<forall>i<n. \<not> scan_stops document ((skip_from document ^^ i) position))
     \<and> scan_stops document ((skip_from document ^^ n) position)
     \<and> endPosition sc
         = (if isAfterOrEqual ((skip_from document ^^ n) position) (document_end document)
            then document_end document
            else Position (line ((skip_from document ^^ n) position))
                   (character ((skip_from document ^^ n) position) + 1))"
proof -
  define isCSS where "isCSS = (languageId document = ''css'')"
  define s where "s = DocumentStreamReader document (Some position) None"
  define visit where "visit = (\<lambda>i. (skip_from document ^^ i) position)"
  define I where "I = (\<lambda>s :: stream. \<exists>n. sr_pos s = visit n \<and> (\<forall>i<n. \<not> scan_stops document (visit i)))"
  have next_visit: "visit (Suc i) = skip_from document (visit i)" for i by (simp add: visit_def)
  have u: "unlimited document s" unfolding s_def by (rule unlimited_initial)
  have "sr_pos s = visit 0" by (simp add: s_def DocumentStreamReader_def visit_def)
  then have i: "I s" unfolding I_def by (intro exI [of _ 0]) simp
  have step: "I s1" if u0: "unlimited document s0" and i0: "I s0"
    and r: "forward_round isCSS document (document_end document) s0 = Again s1" for s0 s1
  proof -
    from forward_round_step [OF u0, of isCSS] r
    have ne: "\<not> eof s0" and nb: "peek s0 \<noteq> Inr (Some closeBrace)" by simp_all
    have nb': "\<not> (in_line document (sr_pos s0) \<and> code_at document (sr_pos s0) = closeBrace)"
      using nb peek_some [OF u0, of closeBrace] by (simp add: closeBrace_def)
    have ns: "\<not> scan_stops document (sr_pos s0)"
      using ne nb' u0 by (simp add: scan_stops_def eof_def unlimited_def)
    from i0 obtain n where n: "sr_pos s0 = visit n" "\<forall>i<n. \<not> scan_stops document (visit i)"
      unfolding I_def by blast
    have upto: "\<forall>i<Suc n. \<not> scan_stops document (visit i)"
      using n ns by (auto simp: less_Suc_eq)
    from forward_round_target [OF u0 ne nb'] r obtain q where
      s1: "s1 = s0\<lparr>sr_pos := q\<rparr>"
      and q: "q = skip_from document (sr_pos s0)
              \<or> (q = skip_from document (skip_from document (sr_pos s0))
                  \<and> \<not> scan_stops document (skip_from document (sr_pos s0)))"
      by (auto simp: isCSS_def)
    from q show ?thesis
    proof
      assume "q = skip_from document (sr_pos s0)"
      then have "sr_pos s1 = visit (Suc n)" using s1 n(1) by (simp add: next_visit)
      then show ?thesis unfolding I_def using upto by blast
    next
      assume h: "q = skip_from document (skip_from document (sr_pos s0))
                  \<and> \<not> scan_stops document (skip_from document (sr_pos s0))"
      then have "sr_pos s1 = visit (Suc (Suc n))" using s1 n(1) by (simp add: next_visit)
      moreover have "\<forall>i<Suc (Suc n). \<not> scan_stops document (visit i)"
        using upto h n(1) by (auto simp: less_Suc_eq next_visit)
      ultimately show ?thesis unfolding I_def by blast
    qed
  qed
  have "\<exists>s0 s'. forward_loop isCSS document (document_end document) s = Some (Inr s')
           \<and> unlimited document s0 \<and> I s0
           \<and> forward_round isCSS document (document_end document) s0 = Done s'"
    by (rule forward_loop_rule [where I = I, OF u i]) (rule step)
  then obtain s0 s' where
    loop: "forward_loop isCSS document (document_end document) s = Some (Inr s')"
    and u0: "unlimited document s0" and i0: "I s0"
    and d: "forward_round isCSS document (document_end document) s0 = Done s'" by blast
  from forward_scan_of_loop [OF loop [unfolded isCSS_def s_def]] obtain sc where
    sc: "forward_scan document position = Some (Inr sc)"
    "endPosition sc = (if \<not> eof s' then sr_pos s' else document_end document)" by blast
  from i0 obtain n where n: "sr_pos s0 = visit n" "\<forall>i<n. \<not> scan_stops document (visit i)"
    unfolding I_def by blast
  note e = forward_loop_end [OF u0 d]
  have ef: "eof s0 \<longleftrightarrow> isAfterOrEqual (visit n) (document_end document)"
    using u0 n(1) by (simp add: eof_def unlimited_def)
  have stops: "scan_stops document (visit n)"
    using e ef n(1) by (auto simp: scan_stops_def)
  have "endPosition sc
         = (if isAfterOrEqual (visit n) (document_end document) then document_end document
            else Position (line (visit n)) (character (visit n) + 1))"
    using e ef n(1) sc(2) by auto
  then show ?thesis using sc(1) n(2) stops unfolding visit_def by blast
qed

lemma find_in_lines_after:
  "find_in_lines ls l c = Some q \<Longrightarrow> isBefore (Position l c) q"
proof (induction ls arbitrary: l c)
  case Nil
  then show ?case by simp
next
  case (Cons t ts)
  show ?case
  proof (cases "indexOf (drop c t) ''*/''")
    case (Some i)
    then show ?thesis using Cons.prems by (auto simp: position_iffs Position_def)
  next
    case None
    then have "find_in_lines ts (Suc l) 0 = Some q" using Cons.prems by simp
    from Cons.IH [OF this] show ?thesis by (auto simp: position_iffs Position_def)
  qed
qed

lemma skip_from_forward:
  assumes "\<not> scan_stops document p"
  shows "isBefore p (skip_from document p)"
proof -
  have e: "isBefore p (document_end document)"
    using assms by (auto simp: scan_stops_def position_iffs)
  have "isBefore p (after_comment document (Position (line p) (character p + 2)))"
  proof (cases "find_in_lines (drop (line p) (text_lines document)) (line p) (character p + 2)")
    case None
    then show ?thesis using e by (simp add: after_comment_def Position_def)
  next
    case (Some q)
    from find_in_lines_after [OF this] have "isBefore p q"
      by (auto simp: position_iffs Position_def)
    then show ?thesis using Some by (simp add: after_comment_def Position_def)
  qed
  moreover have "isBefore p (Position (line p + 1) 0)"
    by (simp add: position_iffs Position_def)
  moreover have "isBefore p (next_position document p)"
    by (simp add: next_position_def position_iffs Position_def)
  ultimately show ?thesis by (simp add: skip_from_def)
qed

lemma first_stop_unique:
  assumes "\<forall>i<n. \<not> P i" and "P n" and "\<forall>i<m. \<not> P i" and "P m"
  shows "n = (m :: nat)"
proof -
  have "\<not> n < m" using assms(2,3) by auto
  moreover have "\<not> m < n" using assms(1,4) by auto
  ultimately show ?thesis by simp
qed

text \<open>
  Claim C4, as stated: the forward scan stops at an unmatched closing brace and takes that
  position as the end of the block. It does not match braces: in the SCSS line
  \<^verbatim>\<open>a{b{c}d}\<close> with the cursor at character 2 the scan ends just after the brace at
  character 5, which closes the block opened at character 3, after the cursor; the
  unmatched brace is the one at character 7.
\<close>

theorem forward_scan_unmatched_counterexample:
  "(case forward_scan nested_rule_document (Position 0 2) of
      Some (Inr sc) \<Rightarrow> endPosition sc = Position 0 6
    | _ \<Rightarrow> False)
   \<and> unmatched_closing_brace (drop 2 (text_lines nested_rule_document ! 0)) 0 2 = Some 7
   \<and> code_at nested_rule_document (Position 0 3) = openBrace
   \<and> code_at nested_rule_document (Position 0 5) = closeBrace"
  by code_simp

text \<open>
  Claim C4, amended: from every cursor position in every document the forward scan ends
  without an exception and leaves the reader at the cursor. It goes through the text from
  the cursor, each position after the one before: a block comment is passed over to just
  after its end, in every dialect, and a line comment to the start of the next line, in a
  dialect other than \<^verbatim>\<open>css\<close>; in \<^verbatim>\<open>css\<close> two slashes are read as any other
  characters. The scan stops at the first closing brace on this path, whether an opening
  brace before it matches it or not, and the end of the block is the position just after
  that brace; if the path reaches the end of the document first, the end of the block is the
  end of the document. The brace stands at or after the cursor, and in a document without a
  slash it is the first closing brace at or after the cursor.
\<close>

theorem forward_scan_first_closing_brace:
  "\<exists>sc n. forward_scan document position = Some (Inr sc)
      \<and> unlimited document (sc_stream sc) \<and> sr_pos (sc_stream sc) = position
      \<and> startPosition sc = Position 0 0 \<and> openBracesToFind sc = 1 \<and> \<not> exit sc
      \<and> (\<forall>i<n. \<not> scan_stops document ((skip_from document ^^ i) position)
              \<and> isBefore ((skip_from document ^^ i) position)
                  ((skip_from document ^^ Suc i) position))
      \<and> scan_stops document ((skip_from document ^^ n) position)
      \<and> endPosition sc
          = (if isAfterOrEqual ((skip_from document ^^ n) position) (document_end document)
             then document_end document
             else Position (line ((skip_from document ^^ n) position))
                    (character ((skip_from document ^^ n) position) + 1))
      \<and> (endPosition sc = document_end document
         \<or> (\<exists>p. in_line document p \<and> code_at document p = closeBrace
               \<and> isAfterOrEqual p position
               \<and> endPosition sc = Position (line p) (character p + 1)))
      \<and> (slash_free document \<longrightarrow>
           (endPosition sc = document_end document
            \<and> (\<forall>q. in_line document q \<and> isAfterOrEqual q position
                   \<longrightarrow> code_at document q \<noteq> closeBrace))
           \<or> (\<exists>p. in_line document p \<and> code_at document p = closeBrace
                 \<and> isAfterOrEqual p position
                 \<and> (\<forall>q. in_line document q \<and> isAfterOrEqual q position \<and> isBefore q p
                        \<longrightarrow> code_at document q \<noteq> closeBrace)
                 \<and> endPosition sc = Position (line p) (character p + 1)))"
proof -
  from forward_scan_general [of document position] obtain sc where
    sc: "forward_scan document position = Some (Inr sc)"
    "unlimited document (sc_stream sc)" "sr_pos (sc_stream sc) = position"
    "startPosition sc = Position 0 0" "openBracesToFind sc = 1" "\<not> exit sc"
    "endPosition sc = document_end document
     \<or> (\<exists>p. in_line document p \<and> code_at document p = closeBrace
           \<and> isAfterOrEqual p position
           \<and> endPosition sc = Position (line p) (character p + 1))"
    by blast
  from forward_scan_visits [of document position] sc(1) obtain n where
    n: "\<forall>i<n. \<not> scan_stops document ((skip_from document ^^ i) position)"
    "scan_stops document ((skip_from document ^^ n) position)"
    "endPosition sc
       = (if isAfterOrEqual ((skip_from document ^^ n) position) (document_end document)
          then document_end document
          else Position (line ((skip_from document ^^ n) position))
                 (character ((skip_from document ^^ n) position) + 1))"
    by auto
  have order: "\<forall>i<n. \<not> scan_stops document ((skip_from document ^^ i) position)
              \<and> isBefore ((skip_from document ^^ i) position)
                  ((skip_from document ^^ Suc i) position)"
    using n(1) skip_from_forward by simp
  have first: "slash_free document \<longrightarrow>
           (endPosition sc = document_end document
            \<and> (\<forall>q. in_line document q \<and> isAfterOrEqual q position
                   \<longrightarrow> code_at document q \<noteq> closeBrace))
           \<or> (\<exists>p. in_line document p \<and> code_at document p = closeBrace
                 \<and> isAfterOrEqual p position
                 \<and> (\<forall>q. in_line document q \<and> isAfterOrEqual q position \<and> isBefore q p
                        \<longrightarrow> code_at document q \<noteq> closeBrace)
                 \<and> endPosition sc = Position (line p) (character p + 1))"
  proof
    assume "slash_free document"
    from forward_scan_slash_free [OF this, of position] sc(1)
    show "(endPosition sc = document_end document
            \<and> (\<forall>q. in_line document q \<and> isAfterOrEqual q position
                   \<longrightarrow> code_at document q \<noteq> closeBrace))
           \<or> (\<exists>p. in_line document p \<and> code_at document p = closeBrace
                 \<and> isAfterOrEqual p position
                 \<and> (\<forall>q. in_line document q \<and> isAfterOrEqual q position \<and> isBefore q p
                        \<longrightarrow> code_at document q \<noteq> closeBrace)
                 \<and> endPosition sc = Position (line p) (character p + 1))"
      by simp
  qed
  show ?thesis
    using sc order n(2,3) first by (intro exI [of _ sc] exI [of _ n] conjI)
qed

theorem forward_scan_first_closing_brace_witness:
  "(\<exists>sc. forward_scan line_comment_document (Position 0 0) = Some (Inr sc)
        \<and> endPosition sc = Position 1 3)
   \<and> (\<exists>sc. forward_scan block_comment_document (Position 0 0) = Some (Inr sc)
        \<and> endPosition sc = Position 0 13)
   \<and> (\<exists>sc. forward_scan css_comment_document (Position 0 0) = Some (Inr sc)
        \<and> endPosition sc = Position 0 6)
   \<and> slash_free brace_document
   \<and> (\<exists>sc p. forward_scan brace_document (Position 0 1) = Some (Inr sc)
         \<and> in_line brace_document p \<and> code_at brace_document p = closeBrace
         \<and> endPosition sc = Position (line p) (character p + 1)
         \<and> endPosition sc = Position 0 4)"
proof -
  have scan: "\<exists>sc. forward_scan document position = Some (Inr sc) \<and> endPosition sc = e"
    if before: "\<forall>i \<in> set [0..<m]. \<not> scan_stops document ((skip_from document ^^ i) position)"
      and stop: "scan_stops document ((skip_from document ^^ m) position)"
      and e: "(if isAfterOrEqual ((skip_from document ^^ m) position) (document_end document)
               then document_end document
               else Position (line ((skip_from document ^^ m) position))
                      (character ((skip_from document ^^ m) position) + 1)) = e"
    for document position m e
  proof -
    from forward_scan_first_closing_brace [of document position] obtain sc n where
      sc: "forward_scan document position = Some (Inr sc)"
      and n: "\<forall>i<n. \<not> scan_stops document ((skip_from document ^^ i) position)"
      "scan_stops document ((skip_from document ^^ n) position)"
      "endPosition sc
         = (if isAfterOrEqual ((skip_from document ^^ n) position) (document_end document)
            then document_end document
            else Position (line ((skip_from document ^^ n) position))
                   (character ((skip_from document ^^ n) position) + 1))"
      by blast
    have "\<forall>i<m. \<not> scan_stops document ((skip_from document ^^ i) position)"
      using before by simp
    from first_stop_unique [OF n(1) n(2) this stop] have m: "n = m" .
    have "endPosition sc = e" using n(3) e unfolding m by (simp only:)
    then show ?thesis using sc by blast
  qed
  have a: "\<exists>sc. forward_scan line_comment_document (Position 0 0) = Some (Inr sc)
        \<and> endPosition sc = Position 1 3"
    by (rule scan [where m = 5]) code_simp+
  have b: "\<exists>sc. forward_scan block_comment_document (Position 0 0) = Some (Inr sc)
        \<and> endPosition sc = Position 0 13"
    by (rule scan [where m = 6]) code_simp+
  have c: "\<exists>sc. forward_scan css_comment_document (Position 0 0) = Some (Inr sc)
        \<and> endPosition sc = Position 0 6"
    by (rule scan [where m = 5]) code_simp+
  have sf: "slash_free brace_document" by code_simp
  have q: "in_line brace_document (Position 0 3)"
    "isAfterOrEqual (Position 0 3) (Position 0 1)"
    "code_at brace_document (Position 0 3) = closeBrace" by code_simp+
  have e: "case forward_scan brace_document (Position 0 1) of
             Some (Inr sc) \<Rightarrow> endPosition sc = Position 0 4 | _ \<Rightarrow> False" by code_simp
  from forward_scan_first_closing_brace [of brace_document "Position 0 1"] sf q
  have "\<exists>sc p. forward_scan brace_document (Position 0 1) = Some (Inr sc)
         \<and> in_line brace_document p \<and> code_at brace_document p = closeBrace
         \<and> endPosition sc = Position (line p) (character p + 1)" by blast
  then obtain sc p where scp: "forward_scan brace_document (Position 0 1) = Some (Inr sc)"
    "in_line brace_document p \<and> code_at brace_document p = closeBrace
       \<and> endPosition sc = Position (line p) (character p + 1)" by blast
  have "endPosition sc = Position 0 4" using e scp(1) by simp
  with scp have first: "\<exists>sc p. forward_scan brace_document (Position 0 1) = Some (Inr sc)
         \<and> in_line brace_document p \<and> code_at brace_document p = closeBrace
         \<and> endPosition sc = Position (line p) (character p + 1)
         \<and> endPosition sc = Position 0 4" by blast
  from a b c sf first show ?thesis by (intro conjI)
qed

end
